theory Spec2Isabelle
  imports Main "HOL-Library.Word"
begin

section \<open>Characters and the C library\<close>

text \<open>
  A C \<open>char\<close> is one byte. Bytes are 8-bit words; the numeral \<open>0x3A\<close> is the colon,
  \<open>0x30\<close> the digit zero, \<open>0x41\<close> the letter A, \<open>0x0A\<close> the line feed. A text literal is
  turned into bytes with \<open>map of_char\<close>.
\<close>

type_synonym cchar = "8 word"

text \<open>The character classes of \<open>ctype.h\<close> in the C locale.\<close>

definition isupper :: "cchar \<Rightarrow> bool" where
  "isupper c = (0x41 \<le> c \<and> c \<le> 0x5A)"

definition isdigit :: "cchar \<Rightarrow> bool" where
  "isdigit c = (0x30 \<le> c \<and> c \<le> 0x39)"

definition isspace :: "cchar \<Rightarrow> bool" where
  "isspace c = (c = 0x20 \<or> (0x09 \<le> c \<and> c \<le> 0x0D))"

section \<open>MingHeChecksum.cpp\<close>

text \<open>The class has one field, \<open>unsigned char counter_\<close>.\<close>

record MingHeBuckConverterChecksum =
  counter :: "8 word"

definition reset :: "MingHeBuckConverterChecksum \<Rightarrow> MingHeBuckConverterChecksum" where
  "reset k = k\<lparr>counter := 0\<rparr>"

text \<open>The constructor only calls \<open>reset\<close>.\<close>

definition constructor :: "MingHeBuckConverterChecksum \<Rightarrow> MingHeBuckConverterChecksum" where
  "constructor k = reset k"

text \<open>The loop \<open>while (counter_ >= 26) counter_ -= 26;\<close> of \<open>addOutputCharacter\<close>.\<close>

function reduce26 :: "8 word \<Rightarrow> 8 word" where
  "reduce26 c = (if 26 \<le> c then reduce26 (c - 26) else c)"
  by pat_completeness auto
termination
  by (relation "measure unat") (simp_all add: word_le_nat_alt unat_sub)

declare reduce26.simps [simp del]

text \<open>
  \<open>counter_ += c\<close> is computed in \<open>int\<close> and stored back into an \<open>unsigned char\<close>:
  addition modulo 256, whatever the signedness of \<open>char\<close>.
\<close>

definition addOutputCharacter ::
  "cchar \<Rightarrow> MingHeBuckConverterChecksum \<Rightarrow> MingHeBuckConverterChecksum" where
  "addOutputCharacter c k = k\<lparr>counter := reduce26 (counter k + c)\<rparr>"

definition getChecksumCharacter :: "MingHeBuckConverterChecksum \<Rightarrow> cchar" where
  "getChecksumCharacter k = counter k + 0x41"

text \<open>A caller of the class: any sequence of calls of its two mutators.\<close>

datatype checksum_call = Reset | AddOutputCharacter cchar

fun run_calls ::
  "checksum_call list \<Rightarrow> MingHeBuckConverterChecksum \<Rightarrow> MingHeBuckConverterChecksum" where
  "run_calls [] k = k"
| "run_calls (Reset # cs) k = run_calls cs (reset k)"
| "run_calls (AddOutputCharacter c # cs) k = run_calls cs (addOutputCharacter c k)"


section \<open>The C library, as far as the converter uses it\<close>

text \<open>
  An array of characters is a list. A write past the end of an array is undefined
  behaviour in C; the model stops there with a fault instead of guessing an outcome.
\<close>

datatype fault = BufferOverrun

definition write_buf :: "cchar list \<Rightarrow> nat \<Rightarrow> cchar \<Rightarrow> fault + cchar list" where
  "write_buf buffer i c = (if i < length buffer then Inr (buffer[i := c]) else Inl BufferOverrun)"

text \<open>
  A string is the list of the bytes at a pointer; it ends at the first NUL, or where the
  list ends (the terminator left implicit).
\<close>

definition cstring :: "cchar list \<Rightarrow> cchar list" where
  "cstring p = takeWhile (\<lambda>c. c \<noteq> 0) p"

text \<open>Decimal digits of a number, most significant first.\<close>

fun utoa10 :: "nat \<Rightarrow> cchar list" where
  "utoa10 n = (if n < 10 then [of_nat (48 + n)] else utoa10 (n div 10) @ [of_nat (48 + n mod 10)])"

declare utoa10.simps [simp del]

definition decimal :: "int \<Rightarrow> cchar list" where
  "decimal v = (if v < 0 then 0x2D # utoa10 (nat (- v)) else utoa10 (nat v))"

text \<open>
  \<open>itoa(value, s, 10)\<close> and \<open>ltoa(value, s, 10)\<close> store the decimal text and a NUL into
  \<open>s\<close>, an array of \<open>n\<close> characters; the result is what they stored.
\<close>

definition itoa :: "int \<Rightarrow> nat \<Rightarrow> fault + cchar list" where
  "itoa v n = (if length (decimal v) + 1 \<le> n then Inr (decimal v @ [0]) else Inl BufferOverrun)"

definition ltoa :: "int \<Rightarrow> nat \<Rightarrow> fault + cchar list" where
  "ltoa v n = (if length (decimal v) + 1 \<le> n then Inr (decimal v @ [0]) else Inl BufferOverrun)"

text \<open>
  \<open>atoi\<close> and \<open>atol\<close> skip white space, take an optional sign and read digits up to the
  first character that is not one. The value is the mathematical one; the callers cast
  it to the width they use.
\<close>

fun digits_value :: "nat \<Rightarrow> cchar list \<Rightarrow> nat" where
  "digits_value acc [] = acc"
| "digits_value acc (c # cs) =
     (if isdigit c then digits_value (10 * acc + unat (c - 0x30)) cs else acc)"

definition strtol10 :: "cchar list \<Rightarrow> int" where
  "strtol10 s =
     (case dropWhile isspace s of
        [] \<Rightarrow> 0
      | c # r \<Rightarrow>
          if c = 0x2D then - int (digits_value 0 r)
          else if c = 0x2B then int (digits_value 0 r)
          else int (digits_value 0 (c # r)))"

definition atoi :: "cchar list \<Rightarrow> int" where
  "atoi s = strtol10 s"

definition atol :: "cchar list \<Rightarrow> int" where
  "atol s = strtol10 s"

text \<open>\<open>strcmp(a, b) == 0\<close>: the two strings are equal.\<close>

definition strcmp_eq :: "cchar list \<Rightarrow> cchar list \<Rightarrow> bool" where
  "strcmp_eq a b = (cstring a = cstring b)"

section \<open>MingHeBuckConverter.h\<close>

definition MINGHE_PER_CHARACTER_TIMEOUT_MS :: "32 word" where
  "MINGHE_PER_CHARACTER_TIMEOUT_MS = 500"

definition MINGHE_MAX_JUNK_CHARACTERS :: nat where
  "MINGHE_MAX_JUNK_CHARACTERS = 32"

definition MINGHE_POST_READ_DELAY_MS :: nat where
  "MINGHE_POST_READ_DELAY_MS = 5"

definition MINGHE_COMMAND_MAMP_HOURS :: cchar where
  "MINGHE_COMMAND_MAMP_HOURS = of_char CHR ''a''"

definition MINGHE_COMMAND_RUNTIME :: cchar where
  "MINGHE_COMMAND_RUNTIME = of_char CHR ''t''"

definition MINGHE_COMMAND_MACHINE_MODEL :: cchar where
  "MINGHE_COMMAND_MACHINE_MODEL = of_char CHR ''z''"

definition REQUEST_GET :: bool where
  "REQUEST_GET = False"

definition REQUEST_SET :: bool where
  "REQUEST_SET = True"

definition MAMP_HOUR_TOLERANCE :: "32 word" where
  "MAMP_HOUR_TOLERANCE = 100"

definition SECOND_TOLERANCE :: "32 word" where
  "SECOND_TOLERANCE = 2"

definition response_ok :: "cchar list" where
  "response_ok = map of_char ''ok''"

text \<open>
  The object: its device id, its checksum, and the serial port it owns. The port is the
  environment. \<open>rx\<close> holds the bytes that have not been read yet, in order, each with the
  time in milliseconds at which the port has received it; \<open>tx\<close> the bytes written so far;
  \<open>now\<close> is the time in milliseconds since start, of which \<open>millis()\<close> returns the low
  32 bits.
\<close>

record MingHeBuckConverter =
  device_id :: "8 word"
  checksum :: MingHeBuckConverterChecksum
  now :: nat
  rx :: "(nat \<times> cchar) list"
  tx :: "cchar list"

definition millis :: "MingHeBuckConverter \<Rightarrow> 32 word" where
  "millis s = of_nat (now s)"

definition delay :: "nat \<Rightarrow> MingHeBuckConverter \<Rightarrow> MingHeBuckConverter" where
  "delay ms s = s\<lparr>now := now s + ms\<rparr>"

text \<open>
  \<open>SoftwareSerial\<close>: \<open>available()\<close> tells whether a received byte waits; \<open>read()\<close> and
  \<open>peek()\<close> return it as an \<open>int\<close>, or -1 when there is none; \<open>write\<close> and \<open>print\<close> of a
  character send one byte.
\<close>

definition serial_available :: "MingHeBuckConverter \<Rightarrow> bool" where
  "serial_available s = (case rx s of [] \<Rightarrow> False | (t, b) # r \<Rightarrow> t \<le> now s)"

definition serial_peek :: "MingHeBuckConverter \<Rightarrow> int" where
  "serial_peek s = (case rx s of [] \<Rightarrow> - 1 | (t, b) # r \<Rightarrow> if t \<le> now s then uint b else - 1)"

definition serial_read :: "MingHeBuckConverter \<Rightarrow> int \<times> MingHeBuckConverter" where
  "serial_read s =
     (case rx s of
        [] \<Rightarrow> (- 1, s)
      | (t, b) # r \<Rightarrow> if t \<le> now s then (uint b, s\<lparr>rx := r\<rparr>) else (- 1, s))"

definition serial_write :: "cchar \<Rightarrow> MingHeBuckConverter \<Rightarrow> MingHeBuckConverter" where
  "serial_write c s = s\<lparr>tx := tx s @ [c]\<rparr>"

section \<open>MingHeBuckConverter.cpp\<close>

definition sendSerialChar :: "cchar \<Rightarrow> MingHeBuckConverter \<Rightarrow> MingHeBuckConverter" where
  "sendSerialChar c s = serial_write c (s\<lparr>checksum := addOutputCharacter c (checksum s)\<rparr>)"

text \<open>The loop \<open>while (*p) { sendSerialChar(*p); p++; }\<close> of \<open>sendRequest\<close>.\<close>

fun send_value :: "cchar list \<Rightarrow> MingHeBuckConverter \<Rightarrow> MingHeBuckConverter" where
  "send_value [] s = s"
| "send_value (c # p) s = (if c \<noteq> 0 then send_value p (sendSerialChar c s) else s)"

text \<open>
  \<open>sendRequest\<close>. The value is \<open>None\<close> for a null pointer. \<open>address\<close> has three
  characters, so \<open>itoa\<close> overruns it for a device id of three digits.
\<close>

definition sendRequest ::
  "bool \<Rightarrow> cchar \<Rightarrow> cchar list option \<Rightarrow> MingHeBuckConverter \<Rightarrow> fault + MingHeBuckConverter" where
  "sendRequest set' command val s0 =
     (let s1 = s0\<lparr>checksum := reset (checksum s0)\<rparr>;
          s2 = sendSerialChar 0x3A s1
      in case itoa (uint (device_id s2)) 3 of
           Inl f \<Rightarrow> Inl f
         | Inr address \<Rightarrow>
             let s3 = (if device_id s2 < 10
                       then sendSerialChar (address ! 0) (sendSerialChar 0x30 s2)
                       else sendSerialChar (address ! 1) (sendSerialChar (address ! 0) s2));
                 s4 = sendSerialChar (if set' then 0x73 else 0x72) s3;
                 s5 = sendSerialChar command s4;
                 s6 = (case val of None \<Rightarrow> s5 | Some p \<Rightarrow> send_value p s5);
                 s7 = serial_write (getChecksumCharacter (checksum s6)) s6
             in Inr (serial_write 0x0A s7))"

text \<open>
  \<open>readCharUntilTimeout\<close>. The loop polls the port; between two polls that find nothing
  the clock moves on, here by one millisecond, the unit of \<open>millis()\<close>.
\<close>

function readCharUntilTimeout_loop ::
  "32 word \<Rightarrow> 32 word \<Rightarrow> MingHeBuckConverter \<Rightarrow> cchar \<times> MingHeBuckConverter" where
  "readCharUntilTimeout_loop start_millis timeout_ms s =
     (if \<not> serial_available s then
        (if timeout_ms \<le> millis s - start_millis then (0, s)
         else readCharUntilTimeout_loop start_millis timeout_ms (s\<lparr>now := now s + 1\<rparr>))
      else (case serial_read s of (c, s') \<Rightarrow> (word_of_int c, s')))"
  by pat_completeness auto
termination
proof (relation "measure (\<lambda>(start_millis, timeout_ms, s). unat timeout_ms - unat (millis s - start_millis))")
  show "wf (measure (\<lambda>(start_millis, timeout_ms, s). unat timeout_ms - unat (millis s - start_millis)))"
    by simp
next
  fix start_millis timeout_ms :: "32 word" and s :: MingHeBuckConverter
  assume "\<not> timeout_ms \<le> millis s - start_millis"
  then have lt: "millis s - start_millis < timeout_ms" by simp
  have eq: "millis (s\<lparr>now := now s + 1\<rparr>) - start_millis = (millis s - start_millis) + 1"
    by (simp add: millis_def)
  from lt have small: "unat (millis s - start_millis) < unat timeout_ms"
    by (simp add: word_less_nat_alt)
  have "unat timeout_ms < 2 ^ LENGTH(32)" by (rule unsigned_less)
  with small have "unat (millis s - start_millis) + unat (1 :: 32 word) < 2 ^ LENGTH(32)"
    by simp
  then have "unat ((millis s - start_millis) + 1) = unat (millis s - start_millis) + 1"
    by (simp add: unat_add_lem [THEN iffD1])
  then have step: "unat (millis (s\<lparr>now := now s + 1\<rparr>) - start_millis)
                   = unat (millis s - start_millis) + 1"
    by (simp only: eq)
  from small step
  show "((start_millis, timeout_ms, s\<lparr>now := now s + 1\<rparr>), (start_millis, timeout_ms, s))
        \<in> measure (\<lambda>(start_millis, timeout_ms, s). unat timeout_ms - unat (millis s - start_millis))"
    by simp
qed

declare readCharUntilTimeout_loop.simps [simp del]

definition readCharUntilTimeout ::
  "32 word \<Rightarrow> MingHeBuckConverter \<Rightarrow> cchar \<times> MingHeBuckConverter" where
  "readCharUntilTimeout timeout_ms s = readCharUntilTimeout_loop (millis s) timeout_ms s"

text \<open>
  \<open>swallowNewlines\<close>. Its argument and \<open>start_millis\<close> are not used by the source.
\<close>

function swallowNewlines :: "32 word \<Rightarrow> MingHeBuckConverter \<Rightarrow> MingHeBuckConverter" where
  "swallowNewlines timeout_ms s =
     (if \<not> serial_available s then delay MINGHE_POST_READ_DELAY_MS s
      else if serial_peek s = 0x0D then swallowNewlines timeout_ms (snd (serial_read s))
      else if serial_peek s = 0x0A then swallowNewlines timeout_ms (snd (serial_read s))
      else s)"
  by pat_completeness auto
termination
  by (relation "measure (\<lambda>(timeout_ms, s). length (rx s))")
    (auto simp: serial_available_def serial_read_def split: list.splits)

declare swallowNewlines.simps [simp del]

text \<open>
  The \<open>do ... while (c != ':')\<close> loop of \<open>readResponseIntoBuffer\<close>. \<open>chars_read\<close> is a
  \<open>uint8_t\<close> that starts at 0 and stops the loop at 32, so it never wraps. The result
  is \<open>False\<close> where the source returns false from inside the loop.
\<close>

function sync_loop :: "nat \<Rightarrow> MingHeBuckConverter \<Rightarrow> bool \<times> cchar \<times> MingHeBuckConverter" where
  "sync_loop chars_read s =
     (case readCharUntilTimeout MINGHE_PER_CHARACTER_TIMEOUT_MS s of
        (c, s') \<Rightarrow>
          if MINGHE_MAX_JUNK_CHARACTERS \<le> chars_read + 1 then (False, c, s')
          else if c \<noteq> 0x3A then sync_loop (chars_read + 1) s'
          else (True, c, s'))"
  by pat_completeness auto
termination
  by (relation "measure (\<lambda>(chars_read, s). MINGHE_MAX_JUNK_CHARACTERS - chars_read)") auto

declare sync_loop.simps [simp del]

text \<open>
  The \<open>for (data_length = 0; data_length < buffer_length; data_length++)\<close> loop. The
  result is \<open>False\<close> where the source returns false from inside the loop, and \<open>True\<close>
  where the loop ends, by \<open>break\<close> or because \<open>data_length\<close> has reached
  \<open>buffer_length\<close>.
\<close>

function payload_loop ::
  "nat \<Rightarrow> nat \<Rightarrow> cchar list \<Rightarrow> MingHeBuckConverter
   \<Rightarrow> fault + (bool \<times> cchar list \<times> MingHeBuckConverter)" where
  "payload_loop data_length buffer_length buffer s =
     (if data_length < buffer_length then
        (case readCharUntilTimeout MINGHE_PER_CHARACTER_TIMEOUT_MS s of
           (c, s') \<Rightarrow>
             if isupper c then
               (if c \<noteq> getChecksumCharacter (checksum s') then Inr (False, buffer, s')
                else Inr (True, buffer, s'))
             else
               (case write_buf buffer data_length c of
                  Inl f \<Rightarrow> Inl f
                | Inr buffer' \<Rightarrow>
                    payload_loop (data_length + 1) buffer_length buffer'
                      (s'\<lparr>checksum := addOutputCharacter c (checksum s')\<rparr>)))
      else Inr (True, buffer, s))"
  by pat_completeness auto
termination
  by (relation "measure (\<lambda>(data_length, buffer_length, buffer, s). buffer_length - data_length)")
    auto

declare payload_loop.simps [simp del]

text \<open>
  \<open>readResponseIntoBuffer\<close> returns its verdict, the buffer as it has filled it, and the
  object. \<open>device_id\<close> is a local array of three characters, all zero at first.
\<close>

definition readResponseIntoBuffer ::
  "cchar list \<Rightarrow> nat \<Rightarrow> MingHeBuckConverter
   \<Rightarrow> fault + (bool \<times> cchar list \<times> MingHeBuckConverter)" where
  "readResponseIntoBuffer buffer buffer_length s0 =
     (case sync_loop 0 (s0\<lparr>checksum := reset (checksum s0)\<rparr>) of
        (False, c, s1) \<Rightarrow> Inr (False, buffer, s1)
      | (True, c, s1) \<Rightarrow>
          (let s2 = s1\<lparr>checksum := addOutputCharacter c (checksum s1)\<rparr> in
           case readCharUntilTimeout MINGHE_PER_CHARACTER_TIMEOUT_MS s2 of
             (d0, s3) \<Rightarrow>
               (let s4 = s3\<lparr>checksum := addOutputCharacter d0 (checksum s3)\<rparr> in
                case readCharUntilTimeout MINGHE_PER_CHARACTER_TIMEOUT_MS s4 of
                  (d1, s5) \<Rightarrow>
                    (let s6 = s5\<lparr>checksum := addOutputCharacter d1 (checksum s5)\<rparr> in
                     if atoi [d0, d1, 0] \<noteq> uint (device_id s6) then Inr (False, buffer, s6)
                     else
                       (case payload_loop 0 buffer_length buffer s6 of
                          Inl f \<Rightarrow> Inl f
                        | Inr (False, buffer', s7) \<Rightarrow> Inr (False, buffer', s7)
                        | Inr (True, buffer', s7) \<Rightarrow>
                            Inr (True, buffer',
                                 swallowNewlines MINGHE_PER_CHARACTER_TIMEOUT_MS s7))))))"

text \<open>
  The copy loop of \<open>readResponse\<close>:
  \<open>for (byte i = 0; i < sizeof(response_buffer) - 2; i++)\<close>, which returns at the
  first character that is not a digit, after having copied it.
\<close>

function copy_value :: "nat \<Rightarrow> cchar list \<Rightarrow> cchar list \<Rightarrow> fault + cchar list" where
  "copy_value i response_buffer val =
     (if i < 16 - 2 then
        (case write_buf val i (response_buffer ! (i + 2)) of
           Inl f \<Rightarrow> Inl f
         | Inr val' \<Rightarrow>
             if \<not> isdigit (val' ! i) then Inr val'
             else copy_value (i + 1) response_buffer val')
      else Inr val)"
  by pat_completeness auto
termination
  by (relation "measure (\<lambda>(i, response_buffer, val). 14 - i)") auto

declare copy_value.simps [simp del]

text \<open>
  \<open>readResponse\<close>. \<open>val\<close> is the caller's array as it is before the call; the result
  holds it as it is after.
\<close>

definition readResponse ::
  "bool \<Rightarrow> cchar \<Rightarrow> cchar list \<Rightarrow> MingHeBuckConverter
   \<Rightarrow> fault + (bool \<times> cchar list \<times> MingHeBuckConverter)" where
  "readResponse set' command val s =
     (case readResponseIntoBuffer (replicate 16 0) (16 - 1) s of
        Inl f \<Rightarrow> Inl f
      | Inr (ok, response_buffer, s') \<Rightarrow>
          if \<not> ok then Inr (False, val, s')
          else if response_buffer ! 0 \<noteq> (if set' then 0x73 else 0x72) then Inr (False, val, s')
          else if response_buffer ! 1 \<noteq> command then Inr (False, val, s')
          else
            (case copy_value 0 response_buffer val of
               Inl f \<Rightarrow> Inl f
             | Inr val' \<Rightarrow> Inr (True, val', s')))"

definition checkForOk :: "MingHeBuckConverter \<Rightarrow> fault + (bool \<times> MingHeBuckConverter)" where
  "checkForOk s =
     (case readResponseIntoBuffer (replicate 16 0) (16 - 1) s of
        Inl f \<Rightarrow> Inl f
      | Inr (ok, response_buffer, s') \<Rightarrow>
          if \<not> ok then Inr (False, s')
          else if strcmp_eq response_buffer response_ok then Inr (True, s')
          else Inr (False, s'))"

text \<open>
  \<open>executeGetCommand\<close>. \<open>response\<close> has eleven characters, all zero at first. The cast
  \<open>(uint32_t) atol(response)\<close> keeps the low 32 bits.
\<close>

definition executeGetCommand ::
  "cchar \<Rightarrow> MingHeBuckConverter \<Rightarrow> fault + (32 word \<times> MingHeBuckConverter)" where
  "executeGetCommand command s =
     (case sendRequest REQUEST_GET command None s of
        Inl f \<Rightarrow> Inl f
      | Inr s1 \<Rightarrow>
          (case readResponse REQUEST_GET command (replicate 11 0) s1 of
             Inl f \<Rightarrow> Inl f
           | Inr (ok, response, s2) \<Rightarrow>
               if \<not> ok then Inr (0, s2)
               else Inr (word_of_int (atol response), s2)))"

definition getmAmpHours ::
  "MingHeBuckConverter \<Rightarrow> fault + (32 word \<times> MingHeBuckConverter)" where
  "getmAmpHours s = executeGetCommand MINGHE_COMMAND_MAMP_HOURS s"

definition getPowerOnTime ::
  "MingHeBuckConverter \<Rightarrow> fault + (32 word \<times> MingHeBuckConverter)" where
  "getPowerOnTime s = executeGetCommand MINGHE_COMMAND_RUNTIME s"

text \<open>
  \<open>executeSetCommand\<close>. \<open>request\<close> has twelve characters. \<open>ltoa\<close> takes a \<open>long\<close>, so
  the \<open>uint32_t\<close> value is read as a signed number.
\<close>

definition executeSetCommand ::
  "cchar \<Rightarrow> 32 word \<Rightarrow> MingHeBuckConverter \<Rightarrow> fault + (bool \<times> MingHeBuckConverter)" where
  "executeSetCommand command v s =
     (case ltoa (sint v) 12 of
        Inl f \<Rightarrow> Inl f
      | Inr request \<Rightarrow>
          (case sendRequest REQUEST_SET command (Some request) s of
             Inl f \<Rightarrow> Inl f
           | Inr s1 \<Rightarrow>
               (case checkForOk s1 of
                  Inl f \<Rightarrow> Inl f
                | Inr (ok, s2) \<Rightarrow> if ok then Inr (True, s2) else Inr (False, s2))))"

definition setmAmpHours ::
  "32 word \<Rightarrow> MingHeBuckConverter \<Rightarrow> fault + (bool \<times> MingHeBuckConverter)" where
  "setmAmpHours mamp_hours s =
     (case executeSetCommand MINGHE_COMMAND_MAMP_HOURS mamp_hours s of
        Inl f \<Rightarrow> Inl f
      | Inr (ok, s1) \<Rightarrow>
          if ok then
            (case getmAmpHours s1 of
               Inl f \<Rightarrow> Inl f
             | Inr (r, s2) \<Rightarrow>
                 (let diff = r - mamp_hours in
                  if diff < MAMP_HOUR_TOLERANCE then Inr (True, s2) else Inr (False, s2)))
          else Inr (False, s1))"

definition setPowerOnTime ::
  "32 word \<Rightarrow> MingHeBuckConverter \<Rightarrow> fault + (bool \<times> MingHeBuckConverter)" where
  "setPowerOnTime seconds s =
     (case executeSetCommand MINGHE_COMMAND_RUNTIME seconds s of
        Inl f \<Rightarrow> Inl f
      | Inr (ok, s1) \<Rightarrow>
          if ok then
            (case getPowerOnTime s1 of
               Inl f \<Rightarrow> Inl f
             | Inr (r, s2) \<Rightarrow>
                 (let diff = r - seconds in
                  if diff < SECOND_TOLERANCE then Inr (True, s2) else Inr (False, s2)))
          else Inr (False, s1))"

text \<open>
  The constructor, with the bytes the device is going to send and their times of
  arrival; time is counted from the construction.
\<close>

definition new_converter :: "8 word \<Rightarrow> (nat \<times> cchar) list \<Rightarrow> MingHeBuckConverter" where
  "new_converter device_id' incoming =
     \<lparr>device_id = device_id', checksum = constructor \<lparr>counter = 0\<rparr>, now = 0,
      rx = incoming, tx = []\<rparr>"

section \<open>The wire format, in the words of the specification\<close>

text \<open>
  The frame up to the end of the value: a colon, the address in two decimal digits, the
  direction (\<open>s\<close> or \<open>r\<close>), the command character and the value.
\<close>

definition spec_frame_body :: "nat \<Rightarrow> bool \<Rightarrow> cchar \<Rightarrow> cchar list \<Rightarrow> cchar list" where
  "spec_frame_body address set' command digits =
     [0x3A, of_nat (48 + address div 10), of_nat (48 + address mod 10),
      (if set' then 0x73 else 0x72), command] @ digits"

text \<open>
  The checksum character: the sum of the values of the bytes, modulo 26, counted from
  the letter A.
\<close>

definition spec_LRC :: "cchar list \<Rightarrow> cchar" where
  "spec_LRC bytes = of_nat (65 + sum_list (map unat bytes) mod 26)"

text \<open>The accumulator after a sequence of bytes has been fed to it.\<close>

definition feed ::
  "cchar list \<Rightarrow> MingHeBuckConverterChecksum \<Rightarrow> MingHeBuckConverterChecksum" where
  "feed bytes k = fold addOutputCharacter bytes k"

text \<open>The value a request carries: nothing for a null pointer, else the string.\<close>

definition value_string :: "cchar list option \<Rightarrow> cchar list" where
  "value_string val = (case val of None \<Rightarrow> [] | Some p \<Rightarrow> cstring p)"


text \<open>
  The bytes \<open>xs\<close> arrive in time for reads that follow one another from time \<open>n\<close> on:
  each byte is there no later than one per-character timeout after the read that waits
  for it has begun, which is when the byte before it has been read.
\<close>

fun in_time :: "nat \<Rightarrow> (nat \<times> cchar) list \<Rightarrow> bool" where
  "in_time n [] = True"
| "in_time n ((t, b) # xs) =
     (t \<le> n + unat MINGHE_PER_CHARACTER_TIMEOUT_MS \<and> in_time (max n t) xs)"

section \<open>The checksum accumulator stays below 26\<close>

lemma reduce26_less: "reduce26 c < 26"
proof (induction c rule: reduce26.induct)
  case (1 c)
  show ?case
  proof (cases "26 \<le> c")
    case True
    with "1.IH" show ?thesis by (subst reduce26.simps) simp
  next
    case False
    then show ?thesis by (subst reduce26.simps) simp
  qed
qed

lemma reduce26_small: "c < 26 \<Longrightarrow> reduce26 c = c"
  using leD by (subst reduce26.simps) auto

lemma unat_reduce26: "unat (reduce26 c) = unat c mod 26"
proof (induction c rule: reduce26.induct)
  case (1 c)
  show ?case
  proof (cases "26 \<le> c")
    case True
    then have le: "26 \<le> unat c" by (simp add: word_le_nat_alt)
    have "unat (reduce26 c) = unat (reduce26 (c - 26))"
      using True by (subst reduce26.simps) simp
    also have "\<dots> = unat (c - 26) mod 26" using True by (rule "1.IH")
    also have "unat (c - 26) = unat c - 26" using True by (simp add: unat_sub)
    also have "(unat c - 26) mod 26 = unat c mod 26" using le by (simp add: le_mod_geq)
    finally show ?thesis .
  next
    case False
    then have "unat c < 26" by (simp add: word_le_nat_alt)
    with False show ?thesis by (subst reduce26.simps) simp
  qed
qed

lemma run_calls_invariant:
  "counter k < 26 \<Longrightarrow> counter (run_calls cs k) < 26"
proof (induction cs arbitrary: k)
  case Nil
  then show ?case by simp
next
  case (Cons call cs)
  show ?case
  proof (cases call)
    case Reset
    have "counter (reset k) < 26" by (simp add: reset_def)
    then show ?thesis using Reset Cons.IH by simp
  next
    case (AddOutputCharacter c)
    have "counter (addOutputCharacter c k) < 26"
      by (simp add: addOutputCharacter_def reduce26_less)
    then show ?thesis using AddOutputCharacter Cons.IH by simp
  qed
qed

lemma checksum_character_range:
  assumes "counter k < 26"
  shows "0x41 \<le> getChecksumCharacter k" and "getChecksumCharacter k \<le> 0x5A"
proof -
  from assms have "unat (counter k) < 26" by (simp add: word_less_nat_alt)
  then have u: "unat (counter k + 0x41) = unat (counter k) + 65"
    by (simp add: unat_word_ariths)
  show "0x41 \<le> getChecksumCharacter k"
    by (simp add: getChecksumCharacter_def word_le_nat_alt u)
  show "getChecksumCharacter k \<le> 0x5A"
    using \<open>unat (counter k) < 26\<close> by (simp add: getChecksumCharacter_def word_le_nat_alt u)
qed

text \<open>
  Claim C6. After the constructor, whatever calls of \<open>reset\<close> and \<open>addOutputCharacter\<close>
  follow and whatever bytes they feed, the accumulator is below 26 and
  \<open>getChecksumCharacter\<close> returns a character from A to Z.
\<close>

theorem C6_checksum_character_is_upper:
  "unat (counter (run_calls cs (constructor k))) < 26
   \<and> 0x41 \<le> getChecksumCharacter (run_calls cs (constructor k))
   \<and> getChecksumCharacter (run_calls cs (constructor k)) \<le> 0x5A"
proof -
  have "counter (constructor k) < 26" by (simp add: constructor_def reset_def)
  then have inv: "counter (run_calls cs (constructor k)) < 26" by (rule run_calls_invariant)
  then have "unat (counter (run_calls cs (constructor k))) < 26"
    by (simp add: word_less_nat_alt)
  with checksum_character_range [OF inv] show ?thesis by simp
qed


section \<open>Reading one character\<close>

lemma millis_diff:
  assumes "n0 \<le> now s" and "now s - n0 \<le> unat (T :: 32 word)"
  shows "(T \<le> millis s - of_nat n0) = (unat T \<le> now s - n0)"
proof -
  have "unat T < 2 ^ LENGTH(32)" by (rule unsigned_less)
  with assms(2) have small: "now s - n0 < 2 ^ 32" by simp
  have "millis s - of_nat n0 = (of_nat (now s - n0) :: 32 word)"
    using assms(1) by (simp add: millis_def of_nat_diff)
  moreover have "unat (of_nat (now s - n0) :: 32 word) = now s - n0"
    using small by (simp add: unat_of_nat)
  ultimately show ?thesis by (simp add: word_le_nat_alt)
qed

lemma loop_timeout:
  assumes "rx s = [] \<or> (\<exists>t b r. rx s = (t, b) # r \<and> n0 + unat T < t)"
    and "n0 \<le> now s" and "now s \<le> n0 + unat T"
  shows "readCharUntilTimeout_loop (of_nat n0) T s = (0, s\<lparr>now := n0 + unat T\<rparr>)"
  using assms
proof (induction "n0 + unat T - now s" arbitrary: s)
  case 0
  then have e: "now s = n0 + unat T" by simp
  from 0 have na: "\<not> serial_available s" by (auto simp: serial_available_def)
  have "T \<le> millis s - of_nat n0" using 0 e by (simp add: millis_diff)
  with na e show ?case by (subst readCharUntilTimeout_loop.simps) simp
next
  case (Suc k)
  then have lt: "now s < n0 + unat T" by simp
  from Suc have na: "\<not> serial_available s" by (auto simp: serial_available_def)
  have nt: "\<not> T \<le> millis s - of_nat n0" using Suc lt by (simp add: millis_diff)
  have "readCharUntilTimeout_loop (of_nat n0) T (s\<lparr>now := now s + 1\<rparr>)
        = (0, (s\<lparr>now := now s + 1\<rparr>)\<lparr>now := n0 + unat T\<rparr>)"
    using Suc.hyps(2) Suc.prems lt by (intro Suc.hyps(1)) auto
  with na nt show ?case by (subst readCharUntilTimeout_loop.simps) simp
qed

lemma loop_byte:
  assumes "rx s = (t, b) # r" and "n0 \<le> now s" and "t \<le> n0 + unat T"
  shows "readCharUntilTimeout_loop (of_nat n0) T s = (b, s\<lparr>now := max (now s) t, rx := r\<rparr>)"
  using assms
proof (induction "t - now s" arbitrary: s)
  case 0
  then have av: "serial_available s" by (simp add: serial_available_def)
  have m: "max (now s) t = now s" using 0 by simp
  show ?case using av 0
    by (subst readCharUntilTimeout_loop.simps) (simp add: serial_read_def m)
next
  case (Suc k)
  then have lt: "now s < t" by simp
  with Suc have na: "\<not> serial_available s" by (simp add: serial_available_def)
  have nt: "\<not> T \<le> millis s - of_nat n0" using Suc lt by (simp add: millis_diff)
  have "readCharUntilTimeout_loop (of_nat n0) T (s\<lparr>now := now s + 1\<rparr>)
        = (b, (s\<lparr>now := now s + 1\<rparr>)\<lparr>now := max (now (s\<lparr>now := now s + 1\<rparr>)) t, rx := r\<rparr>)"
    using Suc.hyps(2) Suc.prems lt by (intro Suc.hyps(1)) auto
  moreover have "max (now s + 1) t = t" "max (now s) t = t" using lt by simp_all
  ultimately show ?case using na nt by (subst readCharUntilTimeout_loop.simps) simp
qed

lemma readCharUntilTimeout_eq:
  "readCharUntilTimeout T s =
     (case rx s of
        [] \<Rightarrow> (0, s\<lparr>now := now s + unat T\<rparr>)
      | (t, b) # r \<Rightarrow>
          if t \<le> now s + unat T then (b, s\<lparr>now := max (now s) t, rx := r\<rparr>)
          else (0, s\<lparr>now := now s + unat T\<rparr>))"
proof (cases "rx s")
  case Nil
  then show ?thesis
    unfolding readCharUntilTimeout_def millis_def
    using loop_timeout [of s "now s" T] by simp
next
  case (Cons p r)
  obtain t b where p: "p = (t, b)" by (cases p)
  show ?thesis
  proof (cases "t \<le> now s + unat T")
    case True
    then show ?thesis
      unfolding readCharUntilTimeout_def millis_def
      using loop_byte [of s t b r "now s" T] Cons p by simp
  next
    case False
    then show ?thesis
      unfolding readCharUntilTimeout_def millis_def
      using loop_timeout [of s "now s" T] Cons p by simp
  qed
qed

lemma read_timeout:
  assumes "rx s = [] \<or> (\<exists>t b r. rx s = (t, b) # r \<and> now s + unat timeout_ms < t)"
  shows "readCharUntilTimeout timeout_ms s = (0, s\<lparr>now := now s + unat timeout_ms\<rparr>)"
  using assms by (auto simp: readCharUntilTimeout_eq)

lemma read_byte:
  assumes "rx s = (t, b) # r" and "t \<le> now s + unat timeout_ms"
  shows "readCharUntilTimeout timeout_ms s = (b, s\<lparr>now := max (now s) t, rx := r\<rparr>)"
  using assms by (simp add: readCharUntilTimeout_eq)

text \<open>What one read can do: it takes no longer than the timeout and removes at most one byte.\<close>

lemma read_step:
  obtains c s1 where "readCharUntilTimeout timeout_ms s = (c, s1)"
    and "now s \<le> now s1" and "now s1 \<le> now s + unat timeout_ms"
    and "(c = 0 \<and> rx s1 = rx s) \<or> (\<exists>t. rx s = (t, c) # rx s1)"
    and "checksum s1 = checksum s"
proof (cases "rx s = [] \<or> (\<exists>t b r. rx s = (t, b) # r \<and> now s + unat timeout_ms < t)")
  case True
  then have "readCharUntilTimeout timeout_ms s = (0, s\<lparr>now := now s + unat timeout_ms\<rparr>)"
    by (rule read_timeout)
  then show thesis by (rule that) simp_all
next
  case False
  then obtain t b r where rx: "rx s = (t, b) # r" and t: "t \<le> now s + unat timeout_ms"
    by (cases "rx s") auto
  then have "readCharUntilTimeout timeout_ms s = (b, s\<lparr>now := max (now s) t, rx := r\<rparr>)"
    by (rule read_byte)
  then show thesis by (rule that) (use rx t in simp_all)
qed

section \<open>The frame encoder\<close>

lemma feed_simps [simp]:
  "feed [] k = k"
  "feed (c # cs) k = feed cs (addOutputCharacter c k)"
  by (simp_all add: feed_def)

lemma feed_append: "feed (xs @ ys) k = feed ys (feed xs k)"
  by (simp add: feed_def)

lemma send_value_eq:
  "send_value p s = s\<lparr>checksum := feed (cstring p) (checksum s), tx := tx s @ cstring p\<rparr>"
proof (induction p arbitrary: s)
  case Nil
  show ?case by (simp add: cstring_def)
next
  case (Cons c p)
  show ?case
  proof (cases "c = 0")
    case True
    then show ?thesis by (simp add: cstring_def)
  next
    case False
    then show ?thesis
      by (simp add: Cons.IH cstring_def sendSerialChar_def serial_write_def)
  qed
qed

lemma utoa10_below_100:
  assumes "n < 100"
  shows "utoa10 n = (if n < 10 then [of_nat (48 + n)]
                     else [of_nat (48 + n div 10), of_nat (48 + n mod 10)])"
proof (cases "n < 10")
  case True
  then show ?thesis by (subst utoa10.simps) simp
next
  case False
  with assms have "n div 10 < 10" by simp
  then have "utoa10 (n div 10) = [of_nat (48 + n div 10)]" by (subst utoa10.simps) simp
  with False show ?thesis by (subst utoa10.simps) simp
qed

lemma device_id_below_100:
  assumes "device_id s < 100"
  shows "unat (device_id s) < 100" and "nat (uint (device_id s)) = unat (device_id s)"
    and "\<not> uint (device_id s) < 0"
  using assms by (simp_all add: word_less_nat_alt)

lemma sendRequest_eq:
  assumes "device_id s < 100"
  shows "sendRequest set' command val s =
     Inr (s\<lparr>checksum :=
              feed (spec_frame_body (unat (device_id s)) set' command (value_string val))
                (reset (checksum s)),
            tx := tx s @ spec_frame_body (unat (device_id s)) set' command (value_string val)
                  @ [getChecksumCharacter
                       (feed (spec_frame_body (unat (device_id s)) set' command (value_string val))
                          (reset (checksum s))),
                     0x0A]\<rparr>)"
proof -
  let ?n = "unat (device_id s)"
  have n: "?n < 100" using assms by (rule device_id_below_100)
  have dec: "decimal (uint (device_id s)) = utoa10 ?n"
    by (simp add: decimal_def)
  have len: "length (utoa10 ?n) \<le> 2" using n by (simp add: utoa10_below_100)
  have it: "itoa (uint (device_id s)) 3 = Inr (utoa10 ?n @ [0])"
    using len by (simp add: itoa_def dec)
  have small: "(device_id s < 10) = (?n < 10)" by (simp add: word_less_nat_alt)
  show ?thesis
  proof (cases "?n < 10")
    case True
    then have "utoa10 ?n = [of_nat (48 + ?n)]" using n by (simp add: utoa10_below_100)
    with True show ?thesis
      by (cases val)
        (simp_all add: sendRequest_def Let_def it small sendSerialChar_def serial_write_def
          send_value_eq spec_frame_body_def value_string_def)
  next
    case False
    then have "utoa10 ?n = [of_nat (48 + ?n div 10), of_nat (48 + ?n mod 10)]"
      using n by (simp add: utoa10_below_100)
    with False show ?thesis
      by (cases val)
        (simp_all add: sendRequest_def Let_def it small sendSerialChar_def serial_write_def
          send_value_eq spec_frame_body_def value_string_def)
  qed
qed

section \<open>Rules for running the model on given input\<close>

lemma reduce26_eval: "reduce26 c = of_nat (unat c mod 26)"
  by (simp flip: unat_reduce26)

lemma isupper_unat: "isupper c = (65 \<le> unat c \<and> unat c \<le> 90)"
  by (simp add: isupper_def word_le_nat_alt)

lemma isdigit_unat: "isdigit c = (48 \<le> unat c \<and> unat c \<le> 57)"
  by (simp add: isdigit_def word_le_nat_alt)

lemma isspace_unat: "isspace c = (unat c = 32 \<or> (9 \<le> unat c \<and> unat c \<le> 13))"
  by (auto simp add: isspace_def word_le_nat_alt word_unat_eq_iff)

lemma replicate_numeral: "replicate (numeral k) x = x # replicate (pred_numeral k) x"
  by (simp add: numeral_eq_Suc)

section \<open>The checksum of a frame\<close>

lemma unat_counter_add:
  assumes "counter k < 26" and "c < 0x80"
  shows "unat (counter (addOutputCharacter c k)) = (unat (counter k) + unat c) mod 26"
proof -
  from assms have "unat (counter k) < 26" and "unat c < 128"
    by (simp_all add: word_less_nat_alt)
  then have "unat (counter k + c) = unat (counter k) + unat c"
    by (simp add: unat_word_ariths)
  then show ?thesis by (simp add: addOutputCharacter_def unat_reduce26)
qed

lemma counter_add_less: "counter (addOutputCharacter c k) < 26"
  by (simp add: addOutputCharacter_def reduce26_less)

lemma counter_feed_less: "counter k < 26 \<Longrightarrow> counter (feed bytes k) < 26"
  by (induction bytes arbitrary: k) (simp_all add: counter_add_less)

lemma unat_counter_feed:
  assumes "counter k < 26" and "list_all (\<lambda>c. c < 0x80) bytes"
  shows "unat (counter (feed bytes k)) = (unat (counter k) + sum_list (map unat bytes)) mod 26"
  using assms
proof (induction bytes arbitrary: k)
  case Nil
  then have "unat (counter k) < 26" by (simp add: word_less_nat_alt)
  then show ?case by simp
next
  case (Cons c cs)
  from Cons.prems have c: "c < 0x80" and cs: "list_all (\<lambda>c. c < 0x80) cs" by simp_all
  have "unat (counter (feed cs (addOutputCharacter c k)))
        = (unat (counter (addOutputCharacter c k)) + sum_list (map unat cs)) mod 26"
    using counter_add_less cs by (rule Cons.IH)
  also have "\<dots> = ((unat (counter k) + unat c) mod 26 + sum_list (map unat cs)) mod 26"
    using Cons.prems(1) c by (simp add: unat_counter_add)
  also have "\<dots> = (unat (counter k) + unat c + sum_list (map unat cs)) mod 26"
    by (simp add: mod_add_left_eq)
  finally show ?case by (simp add: add.assoc)
qed

lemma checksum_character_of_counter:
  assumes "counter k < 26"
  shows "getChecksumCharacter k = of_nat (65 + unat (counter k))"
  by (simp add: getChecksumCharacter_def add.commute)

lemma checksum_character_is_LRC:
  assumes "list_all (\<lambda>c. c < 0x80) bytes"
  shows "getChecksumCharacter (feed bytes (reset k)) = spec_LRC bytes"
proof -
  have z: "counter (reset k) < 26" by (simp add: reset_def)
  then have "counter (feed bytes (reset k)) < 26" by (rule counter_feed_less)
  then have "getChecksumCharacter (feed bytes (reset k))
             = of_nat (65 + unat (counter (feed bytes (reset k))))"
    by (rule checksum_character_of_counter)
  also have "unat (counter (feed bytes (reset k))) = sum_list (map unat bytes) mod 26"
    using unat_counter_feed [OF z assms] by (simp add: reset_def)
  finally show ?thesis by (simp add: spec_LRC_def)
qed

lemma frame_body_ascii:
  assumes "address < 100" and "command < 0x80" and "list_all (\<lambda>c. c < 0x80) digits"
  shows "list_all (\<lambda>c. c < 0x80) (spec_frame_body address set' command digits)"
proof -
  have d: "address div 10 < 10" and m: "address mod 10 < 10" using assms(1) by simp_all
  have "unat (of_nat (48 + address div 10) :: cchar) = 48 + address div 10"
    using d by (simp only: unat_of_nat) simp
  moreover have "unat (of_nat (48 + address mod 10) :: cchar) = 48 + address mod 10"
    using m by (simp only: unat_of_nat) simp
  ultimately have "(of_nat (48 + address div 10) :: cchar) < 0x80"
    and "(of_nat (48 + address mod 10) :: cchar) < 0x80"
    using d m by (simp_all only: word_less_nat_alt) simp_all
  with assms(2,3) show ?thesis by (simp add: spec_frame_body_def)
qed

text \<open>
  Claim C2, as amended. The checksum character that \<open>sendRequest\<close> emits is the sum of
  the ASCII values of the bytes from the colon to the end of the value, modulo 26,
  counted from A; it is followed by a line feed and is not itself fed to the checksum.
  For address 1, direction read, command z and no value the bytes sent are
  \<open>:01rzB\<close> and a line feed: the sum is 391, and 391 modulo 26 is 1.
\<close>

theorem C2_frame_checksum:
  assumes "device_id s < 100" and "command < 0x80"
    and "list_all (\<lambda>c. c < 0x80) (value_string val)"
  shows "(\<exists>s'. sendRequest set' command val s = Inr s'
            \<and> tx s' = tx s @ spec_frame_body (unat (device_id s)) set' command (value_string val)
                  @ [spec_LRC (spec_frame_body (unat (device_id s)) set' command (value_string val)),
                     0x0A])
         \<and> (\<exists>s'. sendRequest REQUEST_GET MINGHE_COMMAND_MACHINE_MODEL None (new_converter 1 []) = Inr s'
            \<and> tx s' = map of_char '':01rzB'' @ [0x0A])"
proof
  have "unat (device_id s) < 100" using assms(1) by (rule device_id_below_100)
  then have "list_all (\<lambda>c. c < 0x80)
               (spec_frame_body (unat (device_id s)) set' command (value_string val))"
    using assms(2,3) by (rule frame_body_ascii)
  then have "getChecksumCharacter
               (feed (spec_frame_body (unat (device_id s)) set' command (value_string val))
                  (reset (checksum s)))
             = spec_LRC (spec_frame_body (unat (device_id s)) set' command (value_string val))"
    by (rule checksum_character_is_LRC)
  then show "\<exists>s'. sendRequest set' command val s = Inr s'
            \<and> tx s' = tx s @ spec_frame_body (unat (device_id s)) set' command (value_string val)
                  @ [spec_LRC (spec_frame_body (unat (device_id s)) set' command (value_string val)),
                     0x0A]"
    by (simp add: sendRequest_eq [OF assms(1)])
next
  show "\<exists>s'. sendRequest REQUEST_GET MINGHE_COMMAND_MACHINE_MODEL None (new_converter 1 []) = Inr s'
            \<and> tx s' = map of_char '':01rzB'' @ [0x0A]"
    by (simp add: sendRequest_eq spec_frame_body_def value_string_def cstring_def word_less_nat_alt
      new_converter_def constructor_def reset_def addOutputCharacter_def reduce26_eval
      getChecksumCharacter_def
      REQUEST_GET_def
      MINGHE_COMMAND_MACHINE_MODEL_def)
qed

theorem C2_frame_checksum_witness:
  "\<exists>s'. sendRequest True 0x75 (Some (map of_char ''1250'')) (new_converter 42 []) = Inr s'
        \<and> tx s' = map of_char '':42su1250U'' @ [0x0A]"
  using C2_frame_checksum [of "new_converter 42 []" "0x75" "Some (map of_char ''1250'')" True]
  by (simp add: new_converter_def value_string_def cstring_def spec_frame_body_def spec_LRC_def
      word_less_nat_alt)

theorem C2_counterexample:
  "sendRequest REQUEST_GET MINGHE_COMMAND_MACHINE_MODEL None (new_converter 1 [])
     = Inr ((new_converter 1 [])\<lparr>checksum := \<lparr>counter = 1\<rparr>,
                                  tx := map of_char '':01rzB'' @ [0x0A]\<rparr>)
   \<and> map of_char '':01rzB'' @ [0x0A] \<noteq> (map of_char '':01rzX'' @ [0x0A] :: cchar list)"
  by (simp add: sendRequest_eq spec_frame_body_def value_string_def cstring_def word_less_nat_alt
      new_converter_def constructor_def reset_def addOutputCharacter_def reduce26_eval
      getChecksumCharacter_def
      REQUEST_GET_def
      MINGHE_COMMAND_MACHINE_MODEL_def)

section \<open>Digits\<close>

lemma digit_char:
  assumes "d < 10"
  shows "unat (of_nat (48 + d) :: cchar) = 48 + d"
proof -
  have "(48 + d) mod 2 ^ LENGTH(8) = 48 + d" using assms by simp
  then show ?thesis by (simp only: unat_of_nat)
qed

lemma digit_char_class:
  assumes "d < 10"
  shows "isdigit (of_nat (48 + d))" and "\<not> isspace (of_nat (48 + d))"
    and "(of_nat (48 + d) :: cchar) \<noteq> 0x2D" and "(of_nat (48 + d) :: cchar) \<noteq> 0x2B"
proof -
  note u = digit_char [OF assms]
  show "isdigit (of_nat (48 + d))" using assms by (simp only: isdigit_unat u) simp
  show "\<not> isspace (of_nat (48 + d))" using assms by (simp only: isspace_unat u) simp
  have "unat (of_nat (48 + d) :: cchar) \<noteq> unat (0x2D :: cchar)"
    using assms by (simp only: u) simp
  then show "(of_nat (48 + d) :: cchar) \<noteq> 0x2D" by metis
  have "unat (of_nat (48 + d) :: cchar) \<noteq> unat (0x2B :: cchar)"
    using assms by (simp only: u) simp
  then show "(of_nat (48 + d) :: cchar) \<noteq> 0x2B" by metis
qed

lemma isdigit_not_isupper: "isdigit c \<Longrightarrow> \<not> isupper c"
  by (simp add: isdigit_unat isupper_unat)

lemma isdigit_not_zero: "isdigit c \<Longrightarrow> c \<noteq> 0"
  by (auto simp: isdigit_unat)

lemma isdigit_value: "isdigit c \<Longrightarrow> unat (c - 0x30) = unat c - 48"
  by (simp add: isdigit_def unat_sub)

lemma digits_value_digits:
  assumes "list_all isdigit ds" and "rest = [] \<or> \<not> isdigit (hd rest)"
  shows "digits_value acc (ds @ rest) = foldl (\<lambda>a c. 10 * a + (unat c - 48)) acc ds"
  using assms
proof (induction ds arbitrary: acc)
  case Nil
  then show ?case by (cases rest) simp_all
next
  case (Cons c cs)
  then show ?case by (simp add: isdigit_value)
qed

lemma atoi_address:
  assumes "n < 100"
  shows "atoi [of_nat (48 + n div 10), of_nat (48 + n mod 10), 0] = int n"
proof -
  have d: "n div 10 < 10" and m: "n mod 10 < 10" using assms by simp_all
  let ?a0 = "of_nat (48 + n div 10) :: cchar" and ?a1 = "of_nat (48 + n mod 10) :: cchar"
  have "digits_value 0 ([?a0, ?a1] @ [0])
        = foldl (\<lambda>a c. 10 * a + (unat c - 48)) 0 [?a0, ?a1]"
    using digit_char_class(1) [OF d] digit_char_class(1) [OF m]
    by (intro digits_value_digits) (simp_all add: isdigit_unat)
  also have "\<dots> = 10 * (n div 10) + n mod 10"
    by (simp only: foldl.simps digit_char [OF d] digit_char [OF m]) simp
  also have "\<dots> = n" by simp
  finally have v: "digits_value 0 [?a0, ?a1, 0] = n" by simp
  have "dropWhile isspace [?a0, ?a1, 0] = [?a0, ?a1, 0]"
    using digit_char_class(2) [OF d] by simp
  then show ?thesis
    using digit_char_class(3,4) [OF d] v
    by (simp only: atoi_def strtol10_def list.case if_False)
qed

section \<open>The response interpreter\<close>

lemma drop_eq_Cons:
  assumes "drop n xs = y # ys"
  shows "xs ! n = y" and "drop (Suc n) xs = ys" and "n < length xs"
proof -
  show n: "n < length xs" using assms by (cases "n < length xs") simp_all
  from n have "drop n xs = xs ! n # drop (Suc n) xs" by (rule Cons_nth_drop_Suc [symmetric])
  with assms show "xs ! n = y" and "drop (Suc n) xs = ys" by simp_all
qed

lemma copy_value_digits:
  assumes "list_all isdigit ds" and "\<not> isdigit z"
    and "drop (i + 2) response_buffer = ds @ z # rest"
    and "i + length ds < 14" and "i + length ds < length v"
  shows "copy_value i response_buffer v = Inr (take i v @ ds @ z # drop (i + length ds + 1) v)"
  using assms
proof (induction ds arbitrary: i v)
  case Nil
  then have b: "response_buffer ! (i + 2) = z"
    using drop_eq_Cons(1) [of "i + 2" response_buffer z rest] by simp
  have i: "i < 14" "i < length v" using Nil.prems by simp_all
  have "copy_value i response_buffer v = Inr (v[i := z])"
    using i Nil.prems(2) b by (subst copy_value.simps) (simp add: write_buf_def)
  moreover have "v[i := z] = take i v @ z # drop (i + 1) v"
    using i(2) by (simp add: upd_conv_take_nth_drop)
  ultimately show ?case by simp
next
  case (Cons d ds)
  from Cons.prems(3) have b: "response_buffer ! (i + 2) = d"
    and dr: "drop (i + 1 + 2) response_buffer = ds @ z # rest"
    using drop_eq_Cons(1,2) [of "i + 2" response_buffer d "ds @ z # rest"] by simp_all
  have i: "i < 14" "i < length v" using Cons.prems by simp_all
  have d: "isdigit d" and ds: "list_all isdigit ds" using Cons.prems(1) by simp_all
  have step: "copy_value i response_buffer v = copy_value (i + 1) response_buffer (v[i := d])"
    using i d b by (subst copy_value.simps) (simp add: write_buf_def)
  have "copy_value (i + 1) response_buffer (v[i := d])
        = Inr (take (i + 1) (v[i := d]) @ ds @ z # drop (i + 1 + length ds + 1) (v[i := d]))"
    using ds Cons.prems(2) dr Cons.prems(4,5) by (intro Cons.IH) simp_all
  moreover have "take (i + 1) (v[i := d]) = take i v @ [d]"
    using i(2) by (simp add: take_Suc_conv_app_nth)
  moreover have "drop (i + 1 + length ds + 1) (v[i := d]) = drop (i + 1 + length ds + 1) v"
    by simp
  ultimately show ?case using step by simp
qed

lemma cstring_digits:
  assumes "list_all isdigit ds"
  shows "cstring (ds @ 0 # rest) = ds"
proof -
  have "\<forall>c \<in> set ds. c \<noteq> 0" using assms by (auto simp: list_all_iff isdigit_not_zero)
  then show ?thesis by (simp add: cstring_def takeWhile_append)
qed

section \<open>The sync phase\<close>

lemma sync_loop_no_colon:
  assumes "list_all (\<lambda>(t, b). b \<noteq> 0x3A) (rx s)" and "k < MINGHE_MAX_JUNK_CHARACTERS"
  shows "\<exists>c s'. sync_loop k s = (False, c, s')
           \<and> now s' \<le> now s + (MINGHE_MAX_JUNK_CHARACTERS - k) * unat MINGHE_PER_CHARACTER_TIMEOUT_MS
           \<and> (\<exists>n \<le> MINGHE_MAX_JUNK_CHARACTERS - k. rx s' = drop n (rx s))"
  using assms
proof (induction "MINGHE_MAX_JUNK_CHARACTERS - k" arbitrary: k s)
  case 0
  then show ?case by simp
next
  case (Suc m)
  let ?T = "unat MINGHE_PER_CHARACTER_TIMEOUT_MS"
  obtain c s1 where rd: "readCharUntilTimeout MINGHE_PER_CHARACTER_TIMEOUT_MS s = (c, s1)"
    and t1: "now s1 \<le> now s + ?T"
    and rx1: "(c = 0 \<and> rx s1 = rx s) \<or> (\<exists>t. rx s = (t, c) # rx s1)"
    by (rule read_step)
  from rx1 Suc.prems(1) have nc: "c \<noteq> 0x3A" by auto
  from rx1 have dr: "rx s1 = drop 0 (rx s) \<or> rx s1 = drop 1 (rx s)" by auto
  show ?case
  proof (cases "MINGHE_MAX_JUNK_CHARACTERS \<le> k + 1")
    case True
    then have "sync_loop k s = (False, c, s1)"
      by (subst sync_loop.simps) (simp add: rd)
    moreover have "now s1 \<le> now s + (MINGHE_MAX_JUNK_CHARACTERS - k) * ?T"
      using t1 Suc.hyps(2) [symmetric] by simp
    moreover have "\<exists>n \<le> MINGHE_MAX_JUNK_CHARACTERS - k. rx s1 = drop n (rx s)"
      using dr Suc.hyps(2) [symmetric] by (metis One_nat_def Suc_leI le0 zero_less_Suc)
    ultimately show ?thesis by blast
  next
    case False
    then have k1: "k + 1 < MINGHE_MAX_JUNK_CHARACTERS" by simp
    have m: "m = MINGHE_MAX_JUNK_CHARACTERS - (k + 1)" using Suc.hyps(2) by simp
    have nc1: "list_all (\<lambda>(t, b). b \<noteq> 0x3A) (rx s1)"
      using rx1 Suc.prems(1) by auto
    from Suc.hyps(1) [OF m nc1 k1] obtain c' s'
      where rec: "sync_loop (k + 1) s1 = (False, c', s')"
        and t': "now s' \<le> now s1 + (MINGHE_MAX_JUNK_CHARACTERS - (k + 1)) * ?T"
        and rx': "\<exists>n \<le> MINGHE_MAX_JUNK_CHARACTERS - (k + 1). rx s' = drop n (rx s1)"
      by blast
    have "sync_loop k s = (False, c', s')"
      using False nc rec by (subst sync_loop.simps) (simp add: rd)
    moreover have "now s' \<le> now s + (MINGHE_MAX_JUNK_CHARACTERS - k) * ?T"
    proof -
      have "MINGHE_MAX_JUNK_CHARACTERS - k = Suc (MINGHE_MAX_JUNK_CHARACTERS - (k + 1))"
        using k1 by simp
      then have "(MINGHE_MAX_JUNK_CHARACTERS - k) * ?T
                 = ?T + (MINGHE_MAX_JUNK_CHARACTERS - (k + 1)) * ?T"
        by simp
      with t' t1 show ?thesis by simp
    qed
    moreover have "\<exists>n \<le> MINGHE_MAX_JUNK_CHARACTERS - k. rx s' = drop n (rx s)"
    proof -
      from rx' obtain n where n: "n \<le> MINGHE_MAX_JUNK_CHARACTERS - (k + 1)"
        and e: "rx s' = drop n (rx s1)" by blast
      from dr show ?thesis
      proof
        assume "rx s1 = drop 0 (rx s)"
        then have "rx s' = drop n (rx s)" using e by simp
        moreover have "n \<le> MINGHE_MAX_JUNK_CHARACTERS - k" using n by simp
        ultimately show ?thesis by blast
      next
        assume "rx s1 = drop 1 (rx s)"
        then have "rx s' = drop (n + 1) (rx s)" using e by simp
        moreover have "n + 1 \<le> MINGHE_MAX_JUNK_CHARACTERS - k" using n k1 by simp
        ultimately show ?thesis by blast
      qed
    qed
    ultimately show ?thesis by blast
  qed
qed

text \<open>
  Claim C5. When no byte of the incoming stream is a colon, \<open>readResponseIntoBuffer\<close>
  returns false with the buffer untouched; by then no more time has passed than 32
  per-character timeouts, and at most 32 bytes have been taken from the port.
\<close>

theorem C5_no_colon_fails_in_bounded_time:
  assumes "list_all (\<lambda>(t, b). b \<noteq> 0x3A) (rx s)"
  shows "\<exists>s'. readResponseIntoBuffer buffer buffer_length s = Inr (False, buffer, s')
           \<and> now s' \<le> now s
                 + MINGHE_MAX_JUNK_CHARACTERS * unat MINGHE_PER_CHARACTER_TIMEOUT_MS
           \<and> (\<exists>n \<le> MINGHE_MAX_JUNK_CHARACTERS. rx s' = drop n (rx s))"
proof -
  let ?s0 = "s\<lparr>checksum := reset (checksum s)\<rparr>"
  have "list_all (\<lambda>(t, b). b \<noteq> 0x3A) (rx ?s0)" using assms by simp
  moreover have "0 < MINGHE_MAX_JUNK_CHARACTERS" by (simp add: MINGHE_MAX_JUNK_CHARACTERS_def)
  ultimately obtain c s'
    where "sync_loop 0 ?s0 = (False, c, s')"
      and "now s' \<le> now ?s0
             + (MINGHE_MAX_JUNK_CHARACTERS - 0) * unat MINGHE_PER_CHARACTER_TIMEOUT_MS"
      and "\<exists>n \<le> MINGHE_MAX_JUNK_CHARACTERS - 0. rx s' = drop n (rx ?s0)"
    using sync_loop_no_colon [of ?s0 0] by blast
  then show ?thesis by (simp add: readResponseIntoBuffer_def)
qed

theorem C5_no_colon_fails_in_bounded_time_witness:
  "\<exists>s'. readResponseIntoBuffer (replicate 16 0) 15
           (new_converter 1 (map (Pair 0) (map of_char ''rz6015X''))) = Inr (False, replicate 16 0, s')
        \<and> now s' \<le> 16000"
proof -
  let ?s = "new_converter 1 (map (Pair 0) (map of_char ''rz6015X''))"
  have h: "list_all (\<lambda>(t, b). b \<noteq> 0x3A) (rx ?s)" by (simp add: new_converter_def)
  have "now ?s + MINGHE_MAX_JUNK_CHARACTERS * unat MINGHE_PER_CHARACTER_TIMEOUT_MS = 16000"
    by (simp add: new_converter_def MINGHE_MAX_JUNK_CHARACTERS_def
        MINGHE_PER_CHARACTER_TIMEOUT_MS_def)
  with C5_no_colon_fails_in_bounded_time [OF h, of "replicate 16 0" 15]
  show ?thesis by auto
qed

section \<open>Timeouts in the frame reader\<close>

text \<open>
  Claim C3, as amended. In the sync phase a per-character read that times out does not
  abort the read. The 0 it returns is not a colon, so it is counted like a junk byte:
  the loop goes on with the next read, and returns false once 32 reads have been made,
  which is the same result as after 32 junk bytes.
\<close>

theorem C3_timeout_is_counted_as_junk:
  "(rx s = [] \<or> (\<exists>t b r. rx s = (t, b) # r
                    \<and> now s + unat MINGHE_PER_CHARACTER_TIMEOUT_MS < t)
     \<longrightarrow> sync_loop chars_read s =
          (if MINGHE_MAX_JUNK_CHARACTERS \<le> chars_read + 1
           then (False, 0, s\<lparr>now := now s + unat MINGHE_PER_CHARACTER_TIMEOUT_MS\<rparr>)
           else sync_loop (chars_read + 1)
                  (s\<lparr>now := now s + unat MINGHE_PER_CHARACTER_TIMEOUT_MS\<rparr>)))
   \<and> (rx s = (t, b) # r \<and> t \<le> now s + unat MINGHE_PER_CHARACTER_TIMEOUT_MS \<and> b \<noteq> 0x3A
     \<longrightarrow> sync_loop chars_read s =
          (if MINGHE_MAX_JUNK_CHARACTERS \<le> chars_read + 1
           then (False, b, s\<lparr>now := max (now s) t, rx := r\<rparr>)
           else sync_loop (chars_read + 1) (s\<lparr>now := max (now s) t, rx := r\<rparr>)))"
proof (intro conjI impI)
  assume "rx s = [] \<or> (\<exists>t b r. rx s = (t, b) # r
                    \<and> now s + unat MINGHE_PER_CHARACTER_TIMEOUT_MS < t)"
  then have "readCharUntilTimeout MINGHE_PER_CHARACTER_TIMEOUT_MS s
             = (0, s\<lparr>now := now s + unat MINGHE_PER_CHARACTER_TIMEOUT_MS\<rparr>)"
    by (rule read_timeout)
  then show "sync_loop chars_read s =
          (if MINGHE_MAX_JUNK_CHARACTERS \<le> chars_read + 1
           then (False, 0, s\<lparr>now := now s + unat MINGHE_PER_CHARACTER_TIMEOUT_MS\<rparr>)
           else sync_loop (chars_read + 1)
                  (s\<lparr>now := now s + unat MINGHE_PER_CHARACTER_TIMEOUT_MS\<rparr>))"
    by (subst sync_loop.simps) simp
next
  assume a: "rx s = (t, b) # r \<and> t \<le> now s + unat MINGHE_PER_CHARACTER_TIMEOUT_MS
             \<and> b \<noteq> 0x3A"
  then have "readCharUntilTimeout MINGHE_PER_CHARACTER_TIMEOUT_MS s
             = (b, s\<lparr>now := max (now s) t, rx := r\<rparr>)"
    by (simp add: read_byte)
  then show "sync_loop chars_read s =
          (if MINGHE_MAX_JUNK_CHARACTERS \<le> chars_read + 1
           then (False, b, s\<lparr>now := max (now s) t, rx := r\<rparr>)
           else sync_loop (chars_read + 1) (s\<lparr>now := max (now s) t, rx := r\<rparr>))"
    using a by (subst sync_loop.simps) simp
qed

theorem C3_timeout_is_counted_as_junk_witness:
  "sync_loop 0 (new_converter 1 []) = sync_loop 1 ((new_converter 1 [])\<lparr>now := 500\<rparr>)
   \<and> sync_loop 31 (new_converter 1 []) = (False, 0, (new_converter 1 [])\<lparr>now := 500\<rparr>)
   \<and> sync_loop 0 (new_converter 1 [(0, 0x0A)]) = sync_loop 1 (new_converter 1 [])
   \<and> sync_loop 31 (new_converter 1 [(0, 0x0A)]) = (False, 0x0A, new_converter 1 [])"
  using C3_timeout_is_counted_as_junk [of "new_converter 1 []" 0]
    C3_timeout_is_counted_as_junk [of "new_converter 1 []" 31]
    C3_timeout_is_counted_as_junk [of "new_converter 1 [(0, 0x0A)]" 0 0 "0x0A" "[]"]
    C3_timeout_is_counted_as_junk [of "new_converter 1 [(0, 0x0A)]" 31 0 "0x0A" "[]"]
  by (simp add: new_converter_def MINGHE_MAX_JUNK_CHARACTERS_def
      MINGHE_PER_CHARACTER_TIMEOUT_MS_def)

text \<open>
  The claim as the specification states it fails: the frame below arrives 600 ms after
  the read has begun, so the first read of the sync phase times out, and the read still
  succeeds.
\<close>

theorem C3_counterexample:
  "readCharUntilTimeout MINGHE_PER_CHARACTER_TIMEOUT_MS
     (new_converter 1 (map (Pair 600) (map of_char '':01rz6015X'' @ [0x0A])))
     = (0, (new_converter 1 (map (Pair 600) (map of_char '':01rz6015X'' @ [0x0A])))
             \<lparr>now := 500\<rparr>)
   \<and> readResponseIntoBuffer (replicate 16 0) 15
       (new_converter 1 (map (Pair 600) (map of_char '':01rz6015X'' @ [0x0A])))
     = Inr (True, map of_char ''rz6015'' @ replicate 10 0,
            (new_converter 1 [])\<lparr>checksum := \<lparr>counter = 23\<rparr>, now := 605\<rparr>)"
  by (simp add: new_converter_def constructor_def reset_def addOutputCharacter_def reduce26_eval
      getChecksumCharacter_def
      readResponseIntoBuffer_def sync_loop.simps payload_loop.simps swallowNewlines.simps
      readCharUntilTimeout_eq MINGHE_PER_CHARACTER_TIMEOUT_MS_def
      MINGHE_MAX_JUNK_CHARACTERS_def MINGHE_POST_READ_DELAY_MS_def delay_def
      serial_available_def serial_peek_def serial_read_def atoi_def strtol10_def
      isupper_unat isdigit_unat isspace_unat write_buf_def replicate_numeral)

text \<open>
  Claim C4 fails on the code. The frame below has lost its checksum character (\<open>x\<close>
  instead of \<open>X\<close>) and nothing follows it; the payload loop takes 15 characters, seven
  of them timeouts, and \<open>readResponseIntoBuffer\<close> returns true without any checksum
  having been compared. \<open>executeGetCommand\<close> then returns 6015.
\<close>

theorem C4_exhausted_payload_returns_true:
  "readResponseIntoBuffer (replicate 16 0) 15
     (new_converter 1 (map (Pair 0) (map of_char '':01rz6015x'' @ [0x0A])))
     = Inr (True, map of_char ''rz6015x'' @ [0x0A] @ replicate 8 0,
            (new_converter 1 [])\<lparr>checksum := \<lparr>counter = 23\<rparr>, now := 3505\<rparr>)
   \<and> executeGetCommand MINGHE_COMMAND_MACHINE_MODEL
       (new_converter 1 (map (Pair 0) (map of_char '':01rz6015x'' @ [0x0A])))
     = Inr (6015, (new_converter 1 [])\<lparr>checksum := \<lparr>counter = 23\<rparr>, now := 3505,
                                        tx := map of_char '':01rzB'' @ [0x0A]\<rparr>)"
  by (simp add: sendRequest_eq spec_frame_body_def value_string_def cstring_def word_less_nat_alt
      new_converter_def constructor_def reset_def addOutputCharacter_def reduce26_eval
      getChecksumCharacter_def
      readResponseIntoBuffer_def sync_loop.simps payload_loop.simps swallowNewlines.simps
      readCharUntilTimeout_eq MINGHE_PER_CHARACTER_TIMEOUT_MS_def
      MINGHE_MAX_JUNK_CHARACTERS_def MINGHE_POST_READ_DELAY_MS_def delay_def
      serial_available_def serial_peek_def serial_read_def atoi_def strtol10_def
      isupper_unat isdigit_unat isspace_unat write_buf_def replicate_numeral
      readResponse_def copy_value.simps
      executeGetCommand_def atol_def REQUEST_GET_def
      MINGHE_COMMAND_MACHINE_MODEL_def)

text \<open>
  Claim C9. Whatever the timeout, \<open>readCharUntilTimeout\<close> returns 0 when no byte
  arrives within it, and returns 0 when the next byte arrives in time and is NUL: its
  caller gets the same character in both cases. So the payload loop of the frame reader
  does the same in both: it stores 0 in the buffer, feeds 0 to the checksum and goes on.
\<close>

theorem C9_timeout_and_nul_both_return_zero:
  "(rx s = [] \<or> (\<exists>t b r. rx s = (t, b) # r \<and> now s + unat timeout_ms < t)
     \<longrightarrow> readCharUntilTimeout timeout_ms s = (0, s\<lparr>now := now s + unat timeout_ms\<rparr>))
   \<and> (rx s = (t, 0) # r \<and> t \<le> now s + unat timeout_ms
     \<longrightarrow> readCharUntilTimeout timeout_ms s = (0, s\<lparr>now := max (now s) t, rx := r\<rparr>))
   \<and> (i < n \<and> i < length buffer
      \<and> (rx s = [] \<or> (\<exists>t b r. rx s = (t, b) # r
                        \<and> now s + unat MINGHE_PER_CHARACTER_TIMEOUT_MS < t))
     \<longrightarrow> payload_loop i n buffer s
         = payload_loop (i + 1) n (buffer[i := 0])
             (s\<lparr>now := now s + unat MINGHE_PER_CHARACTER_TIMEOUT_MS,
                checksum := addOutputCharacter 0 (checksum s)\<rparr>))
   \<and> (i < n \<and> i < length buffer
      \<and> rx s = (t, 0) # r \<and> t \<le> now s + unat MINGHE_PER_CHARACTER_TIMEOUT_MS
     \<longrightarrow> payload_loop i n buffer s
         = payload_loop (i + 1) n (buffer[i := 0])
             (s\<lparr>now := max (now s) t, rx := r,
                checksum := addOutputCharacter 0 (checksum s)\<rparr>))"
proof (intro conjI impI)
  assume "rx s = [] \<or> (\<exists>t b r. rx s = (t, b) # r \<and> now s + unat timeout_ms < t)"
  then show "readCharUntilTimeout timeout_ms s = (0, s\<lparr>now := now s + unat timeout_ms\<rparr>)"
    by (rule read_timeout)
next
  assume "rx s = (t, 0) # r \<and> t \<le> now s + unat timeout_ms"
  then show "readCharUntilTimeout timeout_ms s = (0, s\<lparr>now := max (now s) t, rx := r\<rparr>)"
    by (simp add: read_byte)
next
  assume a: "i < n \<and> i < length buffer
      \<and> (rx s = [] \<or> (\<exists>t b r. rx s = (t, b) # r
                        \<and> now s + unat MINGHE_PER_CHARACTER_TIMEOUT_MS < t))"
  then have "readCharUntilTimeout MINGHE_PER_CHARACTER_TIMEOUT_MS s
             = (0, s\<lparr>now := now s + unat MINGHE_PER_CHARACTER_TIMEOUT_MS\<rparr>)"
    by (intro read_timeout) simp
  then show "payload_loop i n buffer s
         = payload_loop (i + 1) n (buffer[i := 0])
             (s\<lparr>now := now s + unat MINGHE_PER_CHARACTER_TIMEOUT_MS,
                checksum := addOutputCharacter 0 (checksum s)\<rparr>)"
    using a by (subst payload_loop.simps) (simp add: write_buf_def isupper_unat)
next
  assume a: "i < n \<and> i < length buffer
      \<and> rx s = (t, 0) # r \<and> t \<le> now s + unat MINGHE_PER_CHARACTER_TIMEOUT_MS"
  then have "readCharUntilTimeout MINGHE_PER_CHARACTER_TIMEOUT_MS s
             = (0, s\<lparr>now := max (now s) t, rx := r\<rparr>)"
    by (simp add: read_byte)
  then show "payload_loop i n buffer s
         = payload_loop (i + 1) n (buffer[i := 0])
             (s\<lparr>now := max (now s) t, rx := r,
                checksum := addOutputCharacter 0 (checksum s)\<rparr>)"
    using a by (subst payload_loop.simps) (simp add: write_buf_def isupper_unat)
qed

theorem C9_timeout_and_nul_both_return_zero_witness:
  "readCharUntilTimeout 500 (new_converter 1 [(900, 0x3A)])
     = (0, (new_converter 1 [(900, 0x3A)])\<lparr>now := 500\<rparr>)
   \<and> readCharUntilTimeout 500 (new_converter 1 [(20, 0), (900, 0x3A)])
     = (0, (new_converter 1 [(900, 0x3A)])\<lparr>now := 20\<rparr>)
   \<and> payload_loop 0 15 (replicate 16 0) (new_converter 1 [(900, 0x3A)])
     = payload_loop 1 15 (replicate 16 0) ((new_converter 1 [(900, 0x3A)])\<lparr>now := 500\<rparr>)
   \<and> payload_loop 0 15 (replicate 16 0) (new_converter 1 [(20, 0), (900, 0x3A)])
     = payload_loop 1 15 (replicate 16 0) ((new_converter 1 [(900, 0x3A)])\<lparr>now := 20\<rparr>)"
  using C9_timeout_and_nul_both_return_zero
      [of "new_converter 1 [(900, 0x3A)]" 500 _ _ 0 15 "replicate 16 0"]
    C9_timeout_and_nul_both_return_zero
      [of "new_converter 1 [(20, 0), (900, 0x3A)]" 500 20 "[(900, 0x3A)]" 0 15 "replicate 16 0"]
  by (simp add: new_converter_def MINGHE_PER_CHARACTER_TIMEOUT_MS_def constructor_def reset_def
      addOutputCharacter_def reduce26_eval replicate_numeral)

section \<open>Setters with a tolerance\<close>

lemma wrapped_difference:
  fixes r v :: "32 word"
  assumes "r < v" and "unat v - unat r \<le> 2 ^ 32 - n" and "n < 2 ^ 32"
  shows "n \<le> unat (r - v)"
proof -
  from assms(1) have lt: "unat r < unat v" by (simp add: word_less_nat_alt)
  have "unat v < 2 ^ 32" using unsigned_less [of v, where ?'a = nat] by simp
  have "unat (r - v) = unat r + 2 ^ 32 - unat v"
    using lt by (simp add: unat_sub_if_size word_size)
  with lt assms(2) \<open>unat v < 2 ^ 32\<close> show ?thesis by simp
qed

text \<open>
  Claim C10, as amended. In \<open>setmAmpHours\<close> and \<open>setPowerOnTime\<close> the difference of
  the read-back and the written value is computed in 32 bits. When the read-back is
  below the written value by no more than \<open>2^32\<close> minus the tolerance (so whenever the
  written value itself is at most \<open>2^32\<close> minus the tolerance), the difference wraps to
  a value at or above the tolerance and the setter reports failure.
\<close>

theorem C10_wrapped_difference_fails:
  "(executeSetCommand MINGHE_COMMAND_MAMP_HOURS v s = Inr (True, s1)
      \<and> getmAmpHours s1 = Inr (r, s2) \<and> r < v \<and> unat v - unat r \<le> 2 ^ 32 - 100
     \<longrightarrow> MAMP_HOUR_TOLERANCE \<le> r - v \<and> setmAmpHours v s = Inr (False, s2))
   \<and> (executeSetCommand MINGHE_COMMAND_RUNTIME v s = Inr (True, s1)
      \<and> getPowerOnTime s1 = Inr (r, s2) \<and> r < v \<and> unat v - unat r \<le> 2 ^ 32 - 2
     \<longrightarrow> SECOND_TOLERANCE \<le> r - v \<and> setPowerOnTime v s = Inr (False, s2))"
proof (intro conjI impI)
  assume a: "executeSetCommand MINGHE_COMMAND_MAMP_HOURS v s = Inr (True, s1)
      \<and> getmAmpHours s1 = Inr (r, s2) \<and> r < v \<and> unat v - unat r \<le> 2 ^ 32 - 100"
  then have "100 \<le> unat (r - v)" by (intro wrapped_difference) simp_all
  then show t: "MAMP_HOUR_TOLERANCE \<le> r - v"
    by (simp add: MAMP_HOUR_TOLERANCE_def word_le_nat_alt)
  then have "\<not> r - v < MAMP_HOUR_TOLERANCE" by simp
  then show "setmAmpHours v s = Inr (False, s2)" using a by (simp add: setmAmpHours_def)
next
  assume a: "executeSetCommand MINGHE_COMMAND_RUNTIME v s = Inr (True, s1)
      \<and> getPowerOnTime s1 = Inr (r, s2) \<and> r < v \<and> unat v - unat r \<le> 2 ^ 32 - 2"
  then have "2 \<le> unat (r - v)" by (intro wrapped_difference) simp_all
  then show t: "SECOND_TOLERANCE \<le> r - v"
    by (simp add: SECOND_TOLERANCE_def word_le_nat_alt)
  then have "\<not> r - v < SECOND_TOLERANCE" by simp
  then show "setPowerOnTime v s = Inr (False, s2)" using a by (simp add: setPowerOnTime_def)
qed


theorem C10_wrapped_difference_fails_witness:
  "setmAmpHours 1000
     (new_converter 1 (map (Pair 0)
        (map of_char '':01okJ'' @ [0x0A] @ map of_char '':01ra900Z'' @ [0x0A])))
     = Inr (False, \<lparr>device_id = 1, checksum = \<lparr>counter = 25\<rparr>, now = 5, rx = [],
                     tx = map of_char '':01sa1000O'' @ [0x0A] @ map of_char '':01raC'' @ [0x0A]\<rparr>)
   \<and> setPowerOnTime 50 (new_converter 1 (map (Pair 0) (map of_char '':01okJ'' @ [0x0A])))
     = Inr (False, \<lparr>device_id = 1, checksum = \<lparr>counter = 0\<rparr>, now = 16005, rx = [],
                     tx = map of_char '':01st50T'' @ [0x0A] @ map of_char '':01rtV'' @ [0x0A]\<rparr>)"
proof -
  let ?c = "new_converter 1 (map (Pair 0)
        (map of_char '':01okJ'' @ [0x0A] @ map of_char '':01ra900Z'' @ [0x0A]))"
  let ?c1 = "\<lparr>device_id = 1, checksum = \<lparr>counter = 9\<rparr>, now = 0,
              rx = map (Pair 0) (map of_char '':01ra900Z'' @ [0x0A]),
              tx = map of_char '':01sa1000O'' @ [0x0A]\<rparr>"
  let ?c2 = "\<lparr>device_id = 1, checksum = \<lparr>counter = 25\<rparr>, now = 5, rx = [],
              tx = map of_char '':01sa1000O'' @ [0x0A] @ map of_char '':01raC'' @ [0x0A]\<rparr>"
  let ?d = "new_converter 1 (map (Pair 0) (map of_char '':01okJ'' @ [0x0A]))"
  let ?d1 = "\<lparr>device_id = 1, checksum = \<lparr>counter = 9\<rparr>, now = 5, rx = [],
              tx = map of_char '':01st50T'' @ [0x0A]\<rparr>"
  let ?d2 = "\<lparr>device_id = 1, checksum = \<lparr>counter = 0\<rparr>, now = 16005, rx = [],
              tx = map of_char '':01st50T'' @ [0x0A] @ map of_char '':01rtV'' @ [0x0A]\<rparr>"
  have c1: "executeSetCommand MINGHE_COMMAND_MAMP_HOURS 1000 ?c = Inr (True, ?c1)"
    by (simp add: sendRequest_eq spec_frame_body_def value_string_def cstring_def word_less_nat_alt
      new_converter_def constructor_def reset_def addOutputCharacter_def reduce26_eval
      getChecksumCharacter_def
      readResponseIntoBuffer_def sync_loop.simps payload_loop.simps swallowNewlines.simps
      readCharUntilTimeout_eq MINGHE_PER_CHARACTER_TIMEOUT_MS_def
      MINGHE_MAX_JUNK_CHARACTERS_def MINGHE_POST_READ_DELAY_MS_def delay_def
      serial_available_def serial_peek_def serial_read_def atoi_def strtol10_def
      isupper_unat isdigit_unat isspace_unat write_buf_def replicate_numeral
      checkForOk_def strcmp_eq_def response_ok_def
      executeSetCommand_def ltoa_def decimal_def utoa10.simps REQUEST_SET_def
      MINGHE_COMMAND_MAMP_HOURS_def)
  have c2: "getmAmpHours ?c1 = Inr (900, ?c2)" by (simp add: sendRequest_eq spec_frame_body_def value_string_def cstring_def word_less_nat_alt
      new_converter_def constructor_def reset_def addOutputCharacter_def reduce26_eval
      getChecksumCharacter_def
      readResponseIntoBuffer_def sync_loop.simps payload_loop.simps swallowNewlines.simps
      readCharUntilTimeout_eq MINGHE_PER_CHARACTER_TIMEOUT_MS_def
      MINGHE_MAX_JUNK_CHARACTERS_def MINGHE_POST_READ_DELAY_MS_def delay_def
      serial_available_def serial_peek_def serial_read_def atoi_def strtol10_def
      isupper_unat isdigit_unat isspace_unat write_buf_def replicate_numeral
      readResponse_def copy_value.simps
      executeGetCommand_def atol_def REQUEST_GET_def
      getmAmpHours_def
      MINGHE_COMMAND_MAMP_HOURS_def)
  have c3: "(900 :: 32 word) < 1000" "unat (1000 :: 32 word) - unat (900 :: 32 word) \<le> 2 ^ 32 - 100"
    by (simp_all add: word_less_nat_alt)
  have d1: "executeSetCommand MINGHE_COMMAND_RUNTIME 50 ?d = Inr (True, ?d1)"
    by (simp add: sendRequest_eq spec_frame_body_def value_string_def cstring_def word_less_nat_alt
      new_converter_def constructor_def reset_def addOutputCharacter_def reduce26_eval
      getChecksumCharacter_def
      readResponseIntoBuffer_def sync_loop.simps payload_loop.simps swallowNewlines.simps
      readCharUntilTimeout_eq MINGHE_PER_CHARACTER_TIMEOUT_MS_def
      MINGHE_MAX_JUNK_CHARACTERS_def MINGHE_POST_READ_DELAY_MS_def delay_def
      serial_available_def serial_peek_def serial_read_def atoi_def strtol10_def
      isupper_unat isdigit_unat isspace_unat write_buf_def replicate_numeral
      checkForOk_def strcmp_eq_def response_ok_def
      executeSetCommand_def ltoa_def decimal_def utoa10.simps REQUEST_SET_def
      MINGHE_COMMAND_RUNTIME_def)
  have d2: "getPowerOnTime ?d1 = Inr (0, ?d2)" by (simp add: sendRequest_eq spec_frame_body_def value_string_def cstring_def word_less_nat_alt
      new_converter_def constructor_def reset_def addOutputCharacter_def reduce26_eval
      getChecksumCharacter_def
      readResponseIntoBuffer_def sync_loop.simps payload_loop.simps swallowNewlines.simps
      readCharUntilTimeout_eq MINGHE_PER_CHARACTER_TIMEOUT_MS_def
      MINGHE_MAX_JUNK_CHARACTERS_def MINGHE_POST_READ_DELAY_MS_def delay_def
      serial_available_def serial_peek_def serial_read_def atoi_def strtol10_def
      isupper_unat isdigit_unat isspace_unat write_buf_def replicate_numeral
      readResponse_def copy_value.simps
      executeGetCommand_def atol_def REQUEST_GET_def
      getPowerOnTime_def
      MINGHE_COMMAND_RUNTIME_def)
  have d3: "(0 :: 32 word) < 50" "unat (50 :: 32 word) - unat (0 :: 32 word) \<le> 2 ^ 32 - 2"
    by (simp_all add: word_less_nat_alt)
  from C10_wrapped_difference_fails [of 1000 ?c ?c1 900 ?c2] c1 c2 c3
  have "setmAmpHours 1000 ?c = Inr (False, ?c2)" by blast
  moreover from C10_wrapped_difference_fails [of 50 ?d ?d1 0 ?d2] d1 d2 d3
  have "setPowerOnTime 50 ?d = Inr (False, ?d2)" by blast
  ultimately show ?thesis by (rule conjI)
qed

text \<open>
  The claim as stated fails when the written value is within the tolerance of \<open>2^32\<close>:
  the write of 4294967295 is acknowledged, the read-back fails and yields 0, the
  difference wraps to 1, and \<open>setmAmpHours\<close> reports success.
\<close>

theorem C10_counterexample:
  "executeSetCommand MINGHE_COMMAND_MAMP_HOURS 4294967295
     (new_converter 1 (map (Pair 0) (map of_char '':01okJ'' @ [0x0A])))
     = Inr (True, \<lparr>device_id = 1, checksum = \<lparr>counter = 9\<rparr>, now = 5, rx = [],
                    tx = map of_char '':01sa-1T'' @ [0x0A]\<rparr>)
   \<and> getmAmpHours \<lparr>device_id = 1, checksum = \<lparr>counter = 9\<rparr>, now = 5, rx = [],
                    tx = map of_char '':01sa-1T'' @ [0x0A]\<rparr>
     = Inr (0, \<lparr>device_id = 1, checksum = \<lparr>counter = 0\<rparr>, now = 16005, rx = [],
                 tx = map of_char '':01sa-1T'' @ [0x0A] @ map of_char '':01raC'' @ [0x0A]\<rparr>)
   \<and> (0 :: 32 word) < 4294967295
   \<and> setmAmpHours 4294967295
       (new_converter 1 (map (Pair 0) (map of_char '':01okJ'' @ [0x0A])))
     = Inr (True, \<lparr>device_id = 1, checksum = \<lparr>counter = 0\<rparr>, now = 16005, rx = [],
                    tx = map of_char '':01sa-1T'' @ [0x0A] @ map of_char '':01raC'' @ [0x0A]\<rparr>)"
  by (simp add: sendRequest_eq spec_frame_body_def value_string_def cstring_def word_less_nat_alt
      new_converter_def constructor_def reset_def addOutputCharacter_def reduce26_eval
      getChecksumCharacter_def
      readResponseIntoBuffer_def sync_loop.simps payload_loop.simps swallowNewlines.simps
      readCharUntilTimeout_eq MINGHE_PER_CHARACTER_TIMEOUT_MS_def
      MINGHE_MAX_JUNK_CHARACTERS_def MINGHE_POST_READ_DELAY_MS_def delay_def
      serial_available_def serial_peek_def serial_read_def atoi_def strtol10_def
      isupper_unat isdigit_unat isspace_unat write_buf_def replicate_numeral
      readResponse_def copy_value.simps
      checkForOk_def strcmp_eq_def response_ok_def
      executeSetCommand_def ltoa_def decimal_def utoa10.simps REQUEST_SET_def
      executeGetCommand_def atol_def REQUEST_GET_def
      setmAmpHours_def getmAmpHours_def MAMP_HOUR_TOLERANCE_def
      MINGHE_COMMAND_MAMP_HOURS_def)

section \<open>The read command\<close>

lemma payload_loop_total:
  assumes "n \<le> length buffer"
  shows "\<exists>ok b s'. payload_loop i n buffer s = Inr (ok, b, s') \<and> length b = length buffer"
  using assms
proof (induction "n - i" arbitrary: i buffer s)
  case 0
  then show ?case by (subst payload_loop.simps) auto
next
  case (Suc m)
  then have i: "i < n" "i < length buffer" by simp_all
  obtain c s1 where rd: "readCharUntilTimeout MINGHE_PER_CHARACTER_TIMEOUT_MS s = (c, s1)"
    by (rule read_step)
  show ?case
  proof (cases "isupper c")
    case True
    then show ?thesis using i by (subst payload_loop.simps) (auto simp: rd)
  next
    case False
    let ?s2 = "s1\<lparr>checksum := addOutputCharacter c (checksum s1)\<rparr>"
    have "m = n - (i + 1)" using Suc.hyps(2) by simp
    moreover have "n \<le> length (buffer[i := c])" using Suc.prems by simp
    ultimately
    have "\<exists>ok b s'. payload_loop (i + 1) n (buffer[i := c]) ?s2 = Inr (ok, b, s')
            \<and> length b = length (buffer[i := c])"
      by (rule Suc.hyps(1))
    then show ?thesis
      using False i by (subst payload_loop.simps) (simp add: rd write_buf_def)
  qed
qed

lemma readResponseIntoBuffer_total:
  assumes "n \<le> length buffer"
  shows "\<exists>ok b s'. readResponseIntoBuffer buffer n s = Inr (ok, b, s')
           \<and> length b = length buffer"
proof -
  obtain f c s1 where sy: "sync_loop 0 (s\<lparr>checksum := reset (checksum s)\<rparr>) = (f, c, s1)"
    by (metis prod_cases3)
  let ?s2 = "s1\<lparr>checksum := addOutputCharacter c (checksum s1)\<rparr>"
  obtain d0 s3 where r1: "readCharUntilTimeout MINGHE_PER_CHARACTER_TIMEOUT_MS ?s2 = (d0, s3)"
    by (rule read_step)
  let ?s4 = "s3\<lparr>checksum := addOutputCharacter d0 (checksum s3)\<rparr>"
  obtain d1 s5 where r2: "readCharUntilTimeout MINGHE_PER_CHARACTER_TIMEOUT_MS ?s4 = (d1, s5)"
    by (rule read_step)
  let ?s6 = "s5\<lparr>checksum := addOutputCharacter d1 (checksum s5)\<rparr>"
  obtain ok b s7 where pl: "payload_loop 0 n buffer ?s6 = Inr (ok, b, s7)"
    and len: "length b = length buffer"
    using payload_loop_total [OF assms] by blast
  show ?thesis
    by (cases f; cases ok)
      (auto simp add: readResponseIntoBuffer_def sy r1 r2 pl len Let_def)
qed









section \<open>The frame reader on bytes that arrive in time\<close>

lemma reset_eq: "reset k = \<lparr>counter = 0\<rparr>"
  by (cases k) (simp add: reset_def)

lemma checksum_character_isupper:
  "isupper (getChecksumCharacter (feed bytes (reset k)))"
proof -
  have "counter (reset k) < 26" by (simp add: reset_def)
  then have "counter (feed bytes (reset k)) < 26" by (rule counter_feed_less)
  then show ?thesis using checksum_character_range by (simp add: isupper_def)
qed

lemma in_time_append:
  "in_time n (xs @ ys) = (in_time n xs \<and> in_time (fold max (map fst xs) n) ys)"
proof (induction xs arbitrary: n)
  case Nil
  show ?case by simp
next
  case (Cons x xs)
  obtain t b where x: "x = (t, b)" by (cases x)
  show ?case by (simp add: x Cons.IH max.commute)
qed


lemma payload_loop_prefix:
  assumes "rx s = xs @ rest" and "in_time (now s) xs"
    and "list_all (\<lambda>(t, b). \<not> isupper b) xs"
    and "i + length xs \<le> n" and "n \<le> length buffer"
  shows "payload_loop i n buffer s
         = payload_loop (i + length xs) n
             (take i buffer @ map snd xs @ drop (i + length xs) buffer)
             (s\<lparr>checksum := feed (map snd xs) (checksum s),
                now := fold max (map fst xs) (now s), rx := rest\<rparr>)"
  using assms
proof (induction xs arbitrary: i buffer s)
  case Nil
  show ?case using Nil.prems(1) [symmetric] by simp
next
  case (Cons x xs)
  obtain t b where x: "x = (t, b)" by (cases x)
  let ?s1 = "s\<lparr>now := max (now s) t, rx := xs @ rest\<rparr>"
  let ?s2 = "?s1\<lparr>checksum := addOutputCharacter b (checksum ?s1)\<rparr>"
  have rx: "rx s = (t, b) # (xs @ rest)" using Cons.prems(1) x by simp
  have t: "t \<le> now s + unat MINGHE_PER_CHARACTER_TIMEOUT_MS"
    and it: "in_time (now ?s2) xs"
    using Cons.prems(2) x by simp_all
  have rd: "readCharUntilTimeout MINGHE_PER_CHARACTER_TIMEOUT_MS s = (b, ?s1)"
    using rx t by (rule read_byte)
  have nu: "\<not> isupper b" and rest_nu: "list_all (\<lambda>(t, b). \<not> isupper b) xs"
    using Cons.prems(3) x by simp_all
  have i: "i < n" "i < length buffer" using Cons.prems(4,5) by simp_all
  have step: "payload_loop i n buffer s = payload_loop (i + 1) n (buffer[i := b]) ?s2"
    using i nu by (subst payload_loop.simps) (simp add: rd write_buf_def)
  have "payload_loop (i + 1) n (buffer[i := b]) ?s2
        = payload_loop (i + 1 + length xs) n
            (take (i + 1) (buffer[i := b]) @ map snd xs
               @ drop (i + 1 + length xs) (buffer[i := b]))
            (?s2\<lparr>checksum := feed (map snd xs) (checksum ?s2),
                  now := fold max (map fst xs) (now ?s2), rx := rest\<rparr>)"
    using it rest_nu Cons.prems(4,5) by (intro Cons.IH) simp_all
  moreover have "take (i + 1) (buffer[i := b]) = take i buffer @ [b]"
    using i(2) by (simp add: take_Suc_conv_app_nth)
  moreover have "drop (i + 1 + length xs) (buffer[i := b]) = drop (i + 1 + length xs) buffer"
    by simp
  ultimately show ?case
    using step x by (simp add: max.commute)
qed

lemma payload_loop_terminator:
  assumes "rx s = (t, c) # r" and "t \<le> now s + unat MINGHE_PER_CHARACTER_TIMEOUT_MS"
    and "isupper c" and "i < n"
  shows "payload_loop i n buffer s
         = Inr (c = getChecksumCharacter (checksum s), buffer,
                s\<lparr>now := max (now s) t, rx := r\<rparr>)"
  using assms(3,4)
  by (subst payload_loop.simps) (simp add: read_byte [OF assms(1,2)])

lemma payload_loop_full: "payload_loop n n buffer s = Inr (True, buffer, s)"
  by (subst payload_loop.simps) simp

text \<open>The sync phase and the address, when the three bytes arrive in time.\<close>

lemma readResponseIntoBuffer_header:
  assumes rx: "rx s = (t0, 0x3A) # (t1, a0) # (t2, a1) # r"
    and it: "in_time (now s) [(t0, 0x3A), (t1, a0), (t2, a1)]"
  shows "readResponseIntoBuffer buffer n s =
     (if atoi [a0, a1, 0] \<noteq> uint (device_id s)
      then Inr (False, buffer,
                s\<lparr>checksum := feed [0x3A, a0, a1] (reset (checksum s)),
                   now := max (max (max (now s) t0) t1) t2, rx := r\<rparr>)
      else
        (case payload_loop 0 n buffer
                (s\<lparr>checksum := feed [0x3A, a0, a1] (reset (checksum s)),
                   now := max (max (max (now s) t0) t1) t2, rx := r\<rparr>) of
           Inl f \<Rightarrow> Inl f
         | Inr (False, buffer', s7) \<Rightarrow> Inr (False, buffer', s7)
         | Inr (True, buffer', s7) \<Rightarrow>
             Inr (True, buffer', swallowNewlines MINGHE_PER_CHARACTER_TIMEOUT_MS s7)))"
  using rx it
  by (cases s)
    (simp add: readResponseIntoBuffer_def sync_loop.simps readCharUntilTimeout_eq
      MINGHE_MAX_JUNK_CHARACTERS_def)

lemma swallowNewlines_keeps:
  "device_id (swallowNewlines timeout_ms s) = device_id s
   \<and> tx (swallowNewlines timeout_ms s) = tx s
   \<and> checksum (swallowNewlines timeout_ms s) = checksum s"
proof (induction timeout_ms s rule: swallowNewlines.induct)
  case (1 timeout_ms s)
  have rd: "device_id (snd (serial_read s)) = device_id s"
    "tx (snd (serial_read s)) = tx s" "checksum (snd (serial_read s)) = checksum s"
    by (simp_all add: serial_read_def split: list.splits prod.splits)
  show ?case
  proof (cases "serial_available s")
    case False
    then show ?thesis by (simp add: swallowNewlines.simps [of timeout_ms s] delay_def)
  next
    case av: True
    show ?thesis
    proof (cases "serial_peek s = 0x0D")
      case True
      with av "1.IH"(1) rd show ?thesis by (simp add: swallowNewlines.simps [of timeout_ms s])
    next
      case cr: False
      show ?thesis
      proof (cases "serial_peek s = 0x0A")
        case True
        with av cr "1.IH"(2) rd show ?thesis by (simp add: swallowNewlines.simps [of timeout_ms s])
      next
        case False
        with av cr show ?thesis by (simp add: swallowNewlines.simps [of timeout_ms s])
      qed
    qed
  qed
qed

text \<open>
  A frame whose payload \<open>ps\<close> has no upper-case letter and is ended by the upper-case
  letter \<open>c\<close> before the buffer is full: the read succeeds exactly when \<open>c\<close> is the
  checksum character of what came before it.
\<close>

lemma readResponseIntoBuffer_terminated:
  assumes rx: "rx s = (t0, 0x3A) # (t1, a0) # (t2, a1) # ps @ (tc, c) # rest"
    and it: "in_time (now s) ((t0, 0x3A) # (t1, a0) # (t2, a1) # ps @ [(tc, c)])"
    and id: "atoi [a0, a1, 0] = uint (device_id s)"
    and ps: "list_all (\<lambda>(t, b). \<not> isupper b) ps"
    and len: "length ps < n" "n \<le> length buffer"
    and up: "isupper c"
  shows "\<exists>s'. readResponseIntoBuffer buffer n s
              = Inr (c = getChecksumCharacter
                           (feed ([0x3A, a0, a1] @ map snd ps) (reset (checksum s))),
                     map snd ps @ drop (length ps) buffer, s')
            \<and> device_id s' = device_id s \<and> tx s' = tx s"
proof -
  let ?N3 = "max (max (max (now s) t0) t1) t2"
  let ?K3 = "feed [0x3A, a0, a1] (reset (checksum s))"
  let ?s6 = "s\<lparr>checksum := ?K3, now := ?N3, rx := ps @ (tc, c) # rest\<rparr>"
  let ?s7 = "?s6\<lparr>checksum := feed (map snd ps) (checksum ?s6),
                  now := fold max (map fst ps) (now ?s6), rx := (tc, c) # rest\<rparr>"
  let ?buf = "map snd ps @ drop (length ps) buffer"
  let ?s8 = "?s7\<lparr>now := max (now ?s7) tc, rx := rest\<rparr>"
  from it have it3: "in_time (now s) [(t0, 0x3A), (t1, a0), (t2, a1)]"
    and it6: "in_time ?N3 (ps @ [(tc, c)])"
    using in_time_append [of "now s" "[(t0, 0x3A), (t1, a0), (t2, a1)]" "ps @ [(tc, c)]"]
    by (simp_all add: max.commute)
  from it6 have itp: "in_time (now ?s6) ps"
    and tc: "tc \<le> now ?s7 + unat MINGHE_PER_CHARACTER_TIMEOUT_MS"
    by (simp_all add: in_time_append)
  note hd = readResponseIntoBuffer_header [OF rx it3, of buffer n]
  have rx6: "rx ?s6 = ps @ (tc, c) # rest" by simp
  have pl: "payload_loop 0 n buffer ?s6 = payload_loop (length ps) n ?buf ?s7"
    using payload_loop_prefix [OF rx6 itp ps, of 0 n buffer] len by simp
  have rx7: "rx ?s7 = (tc, c) # rest" by simp
  have k7: "checksum ?s7 = feed ([0x3A, a0, a1] @ map snd ps) (reset (checksum s))"
    by (simp only: feed_append) simp
  have "payload_loop (length ps) n ?buf ?s7
        = Inr (c = getChecksumCharacter (checksum ?s7), ?buf, ?s8)"
    using rx7 tc up len(1) by (rule payload_loop_terminator)
  then have fin: "payload_loop 0 n buffer ?s6
        = Inr (c = getChecksumCharacter
                     (feed ([0x3A, a0, a1] @ map snd ps) (reset (checksum s))), ?buf, ?s8)"
    using pl by (simp only: k7)
  have res: "readResponseIntoBuffer buffer n s
             = (if c = getChecksumCharacter
                         (feed ([0x3A, a0, a1] @ map snd ps) (reset (checksum s)))
                then Inr (True, ?buf, swallowNewlines MINGHE_PER_CHARACTER_TIMEOUT_MS ?s8)
                else Inr (False, ?buf, ?s8))"
    using id by (simp only: hd fin) simp
  have sw: "device_id (swallowNewlines MINGHE_PER_CHARACTER_TIMEOUT_MS ?s8) = device_id ?s8"
    "tx (swallowNewlines MINGHE_PER_CHARACTER_TIMEOUT_MS ?s8) = tx ?s8"
    using swallowNewlines_keeps [of MINGHE_PER_CHARACTER_TIMEOUT_MS ?s8] by blast+
  show ?thesis
  proof (cases "c = getChecksumCharacter
                      (feed ([0x3A, a0, a1] @ map snd ps) (reset (checksum s)))")
    case True
    then have "readResponseIntoBuffer buffer n s
               = Inr (c = getChecksumCharacter
                            (feed ([0x3A, a0, a1] @ map snd ps) (reset (checksum s))),
                      ?buf, swallowNewlines MINGHE_PER_CHARACTER_TIMEOUT_MS ?s8)"
      by (simp only: res if_True simp_thms)
    moreover have "device_id (swallowNewlines MINGHE_PER_CHARACTER_TIMEOUT_MS ?s8) = device_id s"
      "tx (swallowNewlines MINGHE_PER_CHARACTER_TIMEOUT_MS ?s8) = tx s"
      using sw by simp_all
    ultimately show ?thesis by blast
  next
    case False
    then have "readResponseIntoBuffer buffer n s
               = Inr (c = getChecksumCharacter
                            (feed ([0x3A, a0, a1] @ map snd ps) (reset (checksum s))),
                      ?buf, ?s8)"
      by (simp only: res if_False simp_thms)
    moreover have "device_id ?s8 = device_id s" "tx ?s8 = tx s" by simp_all
    ultimately show ?thesis by blast
  qed
qed

section \<open>The round trip\<close>

lemma utoa10_isdigit: "list_all isdigit (utoa10 n)"
proof (induction n rule: utoa10.induct)
  case (1 n)
  show ?case
  proof (cases "n < 10")
    case True
    then have "isdigit (of_nat (48 + n))" by (rule digit_char_class(1))
    then show ?thesis
      by (subst utoa10.simps) (simp only: True if_True list.pred_inject simp_thms)
  next
    case False
    have "n mod 10 < 10" by simp
    then have "isdigit (of_nat (48 + n mod 10))" by (rule digit_char_class(1))
    moreover have "list_all isdigit (utoa10 (n div 10))" using False by (rule "1.IH")
    ultimately show ?thesis
      by (subst utoa10.simps)
        (simp only: False if_False list_all_append list.pred_inject simp_thms)
  qed
qed

lemma length_utoa10: "n < 10 ^ Suc k \<Longrightarrow> length (utoa10 n) \<le> Suc k"
proof (induction k arbitrary: n)
  case 0
  then show ?case by (subst utoa10.simps) simp
next
  case (Suc k)
  show ?case
  proof (cases "n < 10")
    case True
    then show ?thesis by (subst utoa10.simps) simp
  next
    case False
    have "n div 10 < 10 ^ Suc k" using Suc.prems by (simp add: less_mult_imp_div_less)
    then have "length (utoa10 (n div 10)) \<le> Suc k" by (rule Suc.IH)
    with False show ?thesis by (subst utoa10.simps) simp
  qed
qed

text \<open>
  The values that \<open>executeSetCommand\<close> hands to \<open>sendRequest\<close>: for a number below
  \<open>2^31\<close>, \<open>ltoa\<close> gives a string of at most ten decimal digits.
\<close>

lemma ltoa_value:
  fixes v :: "32 word"
  assumes "0 \<le> sint v"
  shows "\<exists>request. ltoa (sint v) 12 = Inr request
           \<and> list_all isdigit (value_string (Some request))
           \<and> length (value_string (Some request)) \<le> 10"
proof -
  let ?n = "nat (sint v)"
  have "sint v < 2 ^ 31" using sint_lt [of v] by simp
  then have "?n < 10 ^ Suc 9" using assms by simp
  then have len: "length (utoa10 ?n) \<le> 10" using length_utoa10 [of ?n 9] by simp
  have dec: "decimal (sint v) = utoa10 ?n" using assms by (simp add: decimal_def)
  have "ltoa (sint v) 12 = Inr (utoa10 ?n @ [0])" using len by (simp add: ltoa_def dec)
  moreover have "value_string (Some (utoa10 ?n @ [0])) = utoa10 ?n"
    using cstring_digits [OF utoa10_isdigit, of ?n "[]"] by (simp add: value_string_def)
  ultimately show ?thesis using len utoa10_isdigit [of ?n] by simp
qed

lemma map_snd_frame:
  assumes "map snd xs = c0 # c1 # c2 # ps @ [chk, nl]"
  obtains t0 t1 t2 us tc tn where
    "xs = (t0, c0) # (t1, c1) # (t2, c2) # us @ (tc, chk) # [(tn, nl)]" and "map snd us = ps"
proof -
  from assms obtain x0 x1 x2 r where xs: "xs = x0 # x1 # x2 # r"
    and h: "snd x0 = c0" "snd x1 = c1" "snd x2 = c2" and r: "map snd r = ps @ [chk, nl]"
    by (auto simp: map_eq_Cons_conv)
  from r obtain us vs where r': "r = us @ vs" and us: "map snd us = ps"
    and vs: "map snd vs = [chk, nl]"
    by (auto simp: map_eq_append_conv)
  from vs obtain y0 y1 where vs': "vs = [y0, y1]" and g: "snd y0 = chk" "snd y1 = nl"
    by (auto simp: map_eq_Cons_conv)
  have "xs = (fst x0, c0) # (fst x1, c1) # (fst x2, c2) # us @ (fst y0, chk) # [(fst y1, nl)]"
    using xs r' vs' h g by (simp add: prod_eq_iff)
  then show thesis using us by (rule that)
qed

text \<open>
  Claim C1. A valid tuple is an address from 0 to 99, a direction, a command character
  that is not an upper-case letter (the command codes are lower-case letters) and a
  value of decimal digits that the reader has room for: at most 12 digits, and fewer
  than the caller's array has characters. That holds for every value of a 32-bit number
  (at most ten digits, see \<open>ltoa_value\<close>) with the array of eleven characters that
  \<open>executeGetCommand\<close> passes. Let \<open>sendRequest\<close> encode such a tuple and let a reader
  with the same device id be fed exactly the bytes sent, each of the bytes it waits for
  arriving within the per-character timeout of its read. Then \<open>readResponseIntoBuffer\<close>
  succeeds with the direction, the command and the digits in its buffer, and
  \<open>readResponse\<close> for the same direction and command succeeds and leaves the digits of
  the value in the caller's array as a string.
\<close>

theorem C1_round_trip:
  assumes addr: "device_id s < 100"
    and cmd: "\<not> isupper command"
    and digits: "list_all isdigit (value_string val)"
    and len: "length (value_string val) \<le> 12"
    and room: "length (value_string val) < length vbuf"
    and sent: "sendRequest set' command val s = Inr s'"
    and fed: "tx s' = tx s @ map snd (rx r)"
    and same: "device_id r = device_id s"
    and it: "in_time (now r) (butlast (rx r))"
  shows "(\<exists>r'. readResponseIntoBuffer (replicate 16 0) 15 r
               = Inr (True,
                      [if set' then 0x73 else 0x72, command] @ value_string val
                        @ replicate (14 - length (value_string val)) 0,
                      r'))
       \<and> (\<exists>vbuf' r'. readResponse set' command vbuf r = Inr (True, vbuf', r')
               \<and> cstring vbuf' = value_string val)"
proof -
  let ?n = "unat (device_id s)"
  let ?a0 = "of_nat (48 + ?n div 10) :: cchar" and ?a1 = "of_nat (48 + ?n mod 10) :: cchar"
  let ?dir = "if set' then 0x73 else 0x72 :: cchar"
  let ?ds = "value_string val"
  let ?ps = "?dir # command # ?ds"
  let ?chk = "getChecksumCharacter (feed ([0x3A, ?a0, ?a1] @ ?ps) (reset (checksum s)))"
  have n: "?n < 100" using addr by (rule device_id_below_100)
  have body: "spec_frame_body ?n set' command ?ds = [0x3A, ?a0, ?a1] @ ?ps"
    by (simp add: spec_frame_body_def)
  let ?B = "spec_frame_body ?n set' command ?ds"
  have "s' = s\<lparr>checksum := feed ?B (reset (checksum s)),
               tx := tx s @ ?B @ [getChecksumCharacter (feed ?B (reset (checksum s))), 0x0A]\<rparr>"
    using sent sendRequest_eq [OF addr, of set' command val] by simp
  then have "tx s' = tx s @ ?B @ [getChecksumCharacter (feed ?B (reset (checksum s))), 0x0A]"
    by simp
  with fed have "map snd (rx r) = ?B @ [getChecksumCharacter (feed ?B (reset (checksum s))), 0x0A]"
    by simp
  then have "map snd (rx r) = ([0x3A, ?a0, ?a1] @ ?ps) @ [?chk, 0x0A]"
    by (simp only: body)
  then have "map snd (rx r) = 0x3A # ?a0 # ?a1 # ?ps @ [?chk, 0x0A]"
    by (simp only: append.simps)
  then obtain t0 t1 t2 us tc tn
    where rx: "rx r = (t0, 0x3A) # (t1, ?a0) # (t2, ?a1) # us @ (tc, ?chk) # [(tn, 0x0A)]"
      and us: "map snd us = ?ps"
    by (rule map_snd_frame)
  have it': "in_time (now r) ((t0, 0x3A) # (t1, ?a0) # (t2, ?a1) # us @ [(tc, ?chk)])"
    using it by (simp only: rx) (simp add: butlast_append)
  have "uint (device_id r) = int ?n" by (simp only: same uint_nat)
  then have id: "atoi [?a0, ?a1, 0] = uint (device_id r)"
    by (simp only: atoi_address [OF n])
  have "\<not> isupper ?dir" by (simp add: isupper_unat)
  moreover have "list_all (\<lambda>b. \<not> isupper b) ?ds"
    using digits by (rule list.pred_mono_strong) (rule isdigit_not_isupper)
  ultimately have "list_all (\<lambda>b. \<not> isupper b) ?ps"
    using cmd by simp
  then have nu: "list_all (\<lambda>(t, b). \<not> isupper b) us"
    unfolding us [symmetric] by (simp add: list_all_iff split_beta)
  have lus: "length us = 2 + length ?ds" using arg_cong [OF us, of length] by simp
  have chk: "?chk = getChecksumCharacter
                      (feed ([0x3A, ?a0, ?a1] @ map snd us) (reset (checksum r)))"
    by (simp only: us reset_eq)
  have up: "isupper ?chk" by (rule checksum_character_isupper)
  obtain r' where rd: "readResponseIntoBuffer (replicate 16 0) 15 r
                       = Inr (?chk = getChecksumCharacter
                                       (feed ([0x3A, ?a0, ?a1] @ map snd us)
                                          (reset (checksum r))),
                              map snd us @ drop (length us) (replicate 16 0), r')"
    using readResponseIntoBuffer_terminated [OF rx it' id nu _ _ up, of 15 "replicate 16 0"]
      lus len
    by auto
  have buf: "map snd us @ drop (length us) (replicate 16 0)
             = [?dir, command] @ ?ds @ replicate (14 - length ?ds) 0"
    by (simp add: us lus)
  have first: "readResponseIntoBuffer (replicate 16 0) 15 r
               = Inr (True, [?dir, command] @ ?ds @ replicate (14 - length ?ds) 0, r')"
    using rd chk by (simp only: buf simp_thms)
  let ?buffer = "[?dir, command] @ ?ds @ replicate (14 - length ?ds) 0"
  have "14 - length ?ds = Suc (13 - length ?ds)" using len by simp
  then have dr: "drop (0 + 2) ?buffer = ?ds @ 0 # replicate (13 - length ?ds) 0"
    by simp
  have cp: "copy_value 0 ?buffer vbuf
            = Inr (take 0 vbuf @ ?ds @ 0 # drop (0 + length ?ds + 1) vbuf)"
    using digits _ dr by (rule copy_value_digits) (use len room in \<open>simp_all add: isdigit_unat\<close>)
  have second: "readResponse set' command vbuf r
                = Inr (True, ?ds @ 0 # drop (length ?ds + 1) vbuf, r')"
    using cp by (simp add: readResponse_def first)
  have "cstring (?ds @ 0 # drop (length ?ds + 1) vbuf) = ?ds"
    using digits by (rule cstring_digits)
  with first second show ?thesis by blast
qed

theorem C1_round_trip_witness:
  "(\<exists>r'. readResponseIntoBuffer (replicate 16 0) 15
            (new_converter 7
               (zip [400, 800, 1200, 1600, 2000, 2400, 2800, 3200, 3600, 4000, 4400, 4800, 5200, 5600, 6000, 6400, 6800]
                  (map of_char '':07su2147483647J'' @ [0x0A])))
          = Inr (True, map of_char ''su2147483647'' @ replicate 4 0, r'))
   \<and> (\<exists>vbuf' r'. readResponse True 0x75 (replicate 11 0)
            (new_converter 7
               (zip [400, 800, 1200, 1600, 2000, 2400, 2800, 3200, 3600, 4000, 4400, 4800, 5200, 5600, 6000, 6400, 6800]
                  (map of_char '':07su2147483647J'' @ [0x0A])))
          = Inr (True, vbuf', r')
        \<and> cstring vbuf' = map of_char ''2147483647'')"
proof -
  let ?s = "new_converter 7 []"
  let ?s' = "?s\<lparr>checksum := \<lparr>counter = 9\<rparr>,
               tx := map of_char '':07su2147483647J'' @ [0x0A]\<rparr>"
  let ?r = "new_converter 7
              (zip [400, 800, 1200, 1600, 2000, 2400, 2800, 3200, 3600, 4000, 4400, 4800, 5200, 5600, 6000, 6400, 6800]
                 (map of_char '':07su2147483647J'' @ [0x0A]))"
  let ?val = "Some (map of_char ''2147483647'' @ [0]) :: cchar list option"
  have h1: "device_id ?s < 100" by (simp add: new_converter_def word_less_nat_alt)
  have h2: "\<not> isupper 0x75" by (simp add: isupper_unat)
  have h3: "list_all isdigit (value_string ?val)"
    by (simp add: value_string_def cstring_def isdigit_unat)
  have h4: "length (value_string ?val) \<le> 12" by (simp add: value_string_def cstring_def)
  have h5: "length (value_string ?val) < length (replicate 11 (0 :: cchar))"
    by (simp add: value_string_def cstring_def)
  have h6: "sendRequest True 0x75 ?val ?s = Inr ?s'"
    by (simp add: sendRequest_eq spec_frame_body_def value_string_def cstring_def
        word_less_nat_alt new_converter_def constructor_def reset_def addOutputCharacter_def
        reduce26_eval getChecksumCharacter_def)
  have h7: "tx ?s' = tx ?s @ map snd (rx ?r)" by (simp add: new_converter_def)
  have h8: "device_id ?r = device_id ?s" by (simp add: new_converter_def)
  have h9: "in_time (now ?r) (butlast (rx ?r))"
    by (simp add: new_converter_def MINGHE_PER_CHARACTER_TIMEOUT_MS_def)
  show ?thesis
    using C1_round_trip [OF h1 h2 h3 h4 h5 h6 h7 h8 h9]
    by (simp add: value_string_def cstring_def)
qed

section \<open>The tolerance of the charge setter\<close>

text \<open>
  Claim C7, as amended. Let the write of any value \<open>v\<close> be acknowledged and let the
  read-back return \<open>r\<close>, not below \<open>v\<close>. Then \<open>setmAmpHours\<close> reports success exactly
  when the drift \<open>r - v\<close> is below \<open>MAMP_HOUR_TOLERANCE\<close>, which is 100: a drift of 0 to
  99 is accepted, a drift of 100 or more is refused. So a write of 1000 read back as 1050
  succeeds and one read back as 1200 fails.
\<close>

theorem C7_setmAmpHours_tolerance:
  assumes "executeSetCommand MINGHE_COMMAND_MAMP_HOURS v s = Inr (True, s1)"
    and "getmAmpHours s1 = Inr (r, s2)"
    and "v \<le> r"
  shows "setmAmpHours v s = Inr (unat r - unat v \<le> 99, s2)"
proof -
  have "unat (r - v) = unat r - unat v" using assms(3) by (simp add: unat_sub)
  then have "(r - v < MAMP_HOUR_TOLERANCE) = (unat r - unat v \<le> 99)"
    by (simp add: MAMP_HOUR_TOLERANCE_def word_less_nat_alt less_Suc_eq_le [symmetric]
        del: less_Suc_eq_le)
  then show ?thesis using assms(1,2) by (simp add: setmAmpHours_def)
qed

theorem C7_setmAmpHours_tolerance_witness:
  "setmAmpHours 1000
     (new_converter 1 (map (Pair 0)
        (map of_char '':01okJ'' @ [0x0A] @ map of_char '':01ra1050S'' @ [0x0A])))
     = Inr (True, \<lparr>device_id = 1, checksum = \<lparr>counter = 18\<rparr>, now = 5, rx = [],
              tx = map of_char '':01sa1000O'' @ [0x0A] @ map of_char '':01raC'' @ [0x0A]\<rparr>)
   \<and> setmAmpHours 1000
     (new_converter 1 (map (Pair 0)
        (map of_char '':01okJ'' @ [0x0A] @ map of_char '':01ra1200P'' @ [0x0A])))
     = Inr (False, \<lparr>device_id = 1, checksum = \<lparr>counter = 15\<rparr>, now = 5, rx = [],
              tx = map of_char '':01sa1000O'' @ [0x0A] @ map of_char '':01raC'' @ [0x0A]\<rparr>)"
proof -
  let ?a = "new_converter 1 (map (Pair 0)
        (map of_char '':01okJ'' @ [0x0A] @ map of_char '':01ra1050S'' @ [0x0A]))"
  let ?a1 = "\<lparr>device_id = 1, checksum = \<lparr>counter = 9\<rparr>, now = 0,
              rx = map (Pair 0) (map of_char '':01ra1050S'' @ [0x0A]),
              tx = map of_char '':01sa1000O'' @ [0x0A]\<rparr>"
  let ?a2 = "\<lparr>device_id = 1, checksum = \<lparr>counter = 18\<rparr>, now = 5, rx = [],
              tx = map of_char '':01sa1000O'' @ [0x0A] @ map of_char '':01raC'' @ [0x0A]\<rparr>"
  let ?b = "new_converter 1 (map (Pair 0)
        (map of_char '':01okJ'' @ [0x0A] @ map of_char '':01ra1200P'' @ [0x0A]))"
  let ?b1 = "\<lparr>device_id = 1, checksum = \<lparr>counter = 9\<rparr>, now = 0,
              rx = map (Pair 0) (map of_char '':01ra1200P'' @ [0x0A]),
              tx = map of_char '':01sa1000O'' @ [0x0A]\<rparr>"
  let ?b2 = "\<lparr>device_id = 1, checksum = \<lparr>counter = 15\<rparr>, now = 5, rx = [],
              tx = map of_char '':01sa1000O'' @ [0x0A] @ map of_char '':01raC'' @ [0x0A]\<rparr>"
  have a1: "executeSetCommand MINGHE_COMMAND_MAMP_HOURS 1000 ?a = Inr (True, ?a1)"
    by (simp add: sendRequest_eq spec_frame_body_def value_string_def cstring_def word_less_nat_alt
      new_converter_def constructor_def reset_def addOutputCharacter_def reduce26_eval
      getChecksumCharacter_def
      readResponseIntoBuffer_def sync_loop.simps payload_loop.simps swallowNewlines.simps
      readCharUntilTimeout_eq MINGHE_PER_CHARACTER_TIMEOUT_MS_def
      MINGHE_MAX_JUNK_CHARACTERS_def MINGHE_POST_READ_DELAY_MS_def delay_def
      serial_available_def serial_peek_def serial_read_def atoi_def strtol10_def
      isupper_unat isdigit_unat isspace_unat write_buf_def replicate_numeral
      checkForOk_def strcmp_eq_def response_ok_def
      executeSetCommand_def ltoa_def decimal_def utoa10.simps REQUEST_SET_def
      MINGHE_COMMAND_MAMP_HOURS_def)
  have a2: "getmAmpHours ?a1 = Inr (1050, ?a2)"
    by (simp add: sendRequest_eq spec_frame_body_def value_string_def cstring_def word_less_nat_alt
      new_converter_def constructor_def reset_def addOutputCharacter_def reduce26_eval
      getChecksumCharacter_def
      readResponseIntoBuffer_def sync_loop.simps payload_loop.simps swallowNewlines.simps
      readCharUntilTimeout_eq MINGHE_PER_CHARACTER_TIMEOUT_MS_def
      MINGHE_MAX_JUNK_CHARACTERS_def MINGHE_POST_READ_DELAY_MS_def delay_def
      serial_available_def serial_peek_def serial_read_def atoi_def strtol10_def
      isupper_unat isdigit_unat isspace_unat write_buf_def replicate_numeral
      readResponse_def copy_value.simps
      executeGetCommand_def atol_def REQUEST_GET_def
      getmAmpHours_def
      MINGHE_COMMAND_MAMP_HOURS_def)
  have a3: "(1000 :: 32 word) \<le> 1050" by (simp add: word_le_nat_alt)
  have b1: "executeSetCommand MINGHE_COMMAND_MAMP_HOURS 1000 ?b = Inr (True, ?b1)"
    by (simp add: sendRequest_eq spec_frame_body_def value_string_def cstring_def word_less_nat_alt
      new_converter_def constructor_def reset_def addOutputCharacter_def reduce26_eval
      getChecksumCharacter_def
      readResponseIntoBuffer_def sync_loop.simps payload_loop.simps swallowNewlines.simps
      readCharUntilTimeout_eq MINGHE_PER_CHARACTER_TIMEOUT_MS_def
      MINGHE_MAX_JUNK_CHARACTERS_def MINGHE_POST_READ_DELAY_MS_def delay_def
      serial_available_def serial_peek_def serial_read_def atoi_def strtol10_def
      isupper_unat isdigit_unat isspace_unat write_buf_def replicate_numeral
      checkForOk_def strcmp_eq_def response_ok_def
      executeSetCommand_def ltoa_def decimal_def utoa10.simps REQUEST_SET_def
      MINGHE_COMMAND_MAMP_HOURS_def)
  have b2: "getmAmpHours ?b1 = Inr (1200, ?b2)"
    by (simp add: sendRequest_eq spec_frame_body_def value_string_def cstring_def word_less_nat_alt
      new_converter_def constructor_def reset_def addOutputCharacter_def reduce26_eval
      getChecksumCharacter_def
      readResponseIntoBuffer_def sync_loop.simps payload_loop.simps swallowNewlines.simps
      readCharUntilTimeout_eq MINGHE_PER_CHARACTER_TIMEOUT_MS_def
      MINGHE_MAX_JUNK_CHARACTERS_def MINGHE_POST_READ_DELAY_MS_def delay_def
      serial_available_def serial_peek_def serial_read_def atoi_def strtol10_def
      isupper_unat isdigit_unat isspace_unat write_buf_def replicate_numeral
      readResponse_def copy_value.simps
      executeGetCommand_def atol_def REQUEST_GET_def
      getmAmpHours_def
      MINGHE_COMMAND_MAMP_HOURS_def)
  have b3: "(1000 :: 32 word) \<le> 1200" by (simp add: word_le_nat_alt)
  have "setmAmpHours 1000 ?a = Inr (True, ?a2)"
    using C7_setmAmpHours_tolerance [OF a1 a2 a3] by simp
  moreover have "setmAmpHours 1000 ?b = Inr (False, ?b2)"
    using C7_setmAmpHours_tolerance [OF b1 b2 b3] by simp
  ultimately show ?thesis by (rule conjI)
qed

text \<open>
  The claim as stated fails at the end of its range: a write of 1000 that is
  acknowledged and read back as 1100, a drift of exactly 100, is reported as a failure.
\<close>

theorem C7_counterexample:
  "executeSetCommand MINGHE_COMMAND_MAMP_HOURS 1000
     (new_converter 1 (map (Pair 0)
        (map of_char '':01okJ'' @ [0x0A] @ map of_char '':01ra1100O'' @ [0x0A])))
     = Inr (True, \<lparr>device_id = 1, checksum = \<lparr>counter = 9\<rparr>, now = 0,
              rx = map (Pair 0) (map of_char '':01ra1100O'' @ [0x0A]),
              tx = map of_char '':01sa1000O'' @ [0x0A]\<rparr>)
   \<and> getmAmpHours
     \<lparr>device_id = 1, checksum = \<lparr>counter = 9\<rparr>, now = 0,
              rx = map (Pair 0) (map of_char '':01ra1100O'' @ [0x0A]),
              tx = map of_char '':01sa1000O'' @ [0x0A]\<rparr>
     = Inr (1100, \<lparr>device_id = 1, checksum = \<lparr>counter = 14\<rparr>, now = 5, rx = [],
              tx = map of_char '':01sa1000O'' @ [0x0A] @ map of_char '':01raC'' @ [0x0A]\<rparr>)
   \<and> setmAmpHours 1000
     (new_converter 1 (map (Pair 0)
        (map of_char '':01okJ'' @ [0x0A] @ map of_char '':01ra1100O'' @ [0x0A])))
     = Inr (False, \<lparr>device_id = 1, checksum = \<lparr>counter = 14\<rparr>, now = 5, rx = [],
              tx = map of_char '':01sa1000O'' @ [0x0A] @ map of_char '':01raC'' @ [0x0A]\<rparr>)"
  by (simp add: sendRequest_eq spec_frame_body_def value_string_def cstring_def word_less_nat_alt
      new_converter_def constructor_def reset_def addOutputCharacter_def reduce26_eval
      getChecksumCharacter_def
      readResponseIntoBuffer_def sync_loop.simps payload_loop.simps swallowNewlines.simps
      readCharUntilTimeout_eq MINGHE_PER_CHARACTER_TIMEOUT_MS_def
      MINGHE_MAX_JUNK_CHARACTERS_def MINGHE_POST_READ_DELAY_MS_def delay_def
      serial_available_def serial_peek_def serial_read_def atoi_def strtol10_def
      isupper_unat isdigit_unat isspace_unat write_buf_def replicate_numeral
      checkForOk_def strcmp_eq_def response_ok_def
      executeSetCommand_def ltoa_def decimal_def utoa10.simps REQUEST_SET_def
      MINGHE_COMMAND_MAMP_HOURS_def
      readResponse_def copy_value.simps
      executeGetCommand_def atol_def REQUEST_GET_def
      getmAmpHours_def setmAmpHours_def MAMP_HOUR_TOLERANCE_def)

section \<open>The read command on a stream of bytes\<close>









end
